theory Spec2Isabelle
  imports Main
begin

text \<open>
  A model of \<^verbatim>\<open>MockNatsClient\<close> (\<^verbatim>\<open>src/lib/MockNatsClient.js\<close>), an in-process stand-in for
  a NATS client: a registry of subscriptions, \<^verbatim>\<open>publish\<close> with queue groups, \<^verbatim>\<open>requestOne\<close>,
  per-subscription timeouts, and the \<open>connected\<close> flag. Every method is a function from
  the state before the call to the state after it, together with what the call returns
  or throws and the trace of the steps it performs. What a method leaves to the event
  loop (timers, \<^verbatim>\<open>process.nextTick\<close>) is kept in the state and runs when the caller yields.
\<close>

section \<open>JavaScript values, errors and the platform\<close>

text \<open>
  The values that reach the client of \<^verbatim>\<open>src/lib/MockNatsClient.js\<close>. A string is a
  \<open>string\<close>, a Buffer is its list of bytes, a function is an opaque closure known
  by a number; \<open>JNoop\<close> is the arrow function \<^verbatim>\<open>() => { }\<close> that \<^verbatim>\<open>timeout\<close> takes
  as the default of its last parameter. An error is what a call throws; \<open>Unmodelled\<close> is
  not an error of the program: the concrete platform below answers it for an input it
  does not cover, and no method of the client produces it.
\<close>

datatype jsval =
    JUndefined
  | JNull
  | JBool bool
  | JNum int
  | JStr string
  | JBuf string
  | JArr "jsval list"
  | JObj "(string \<times> jsval) list"
  | JFun nat
  | JNoop

datatype error =
    TypeError
  | ReferenceError string
  | SyntaxError
  | Thrown jsval
  | Unmodelled

text \<open>\<^verbatim>\<open>typeof v === "function"\<close>\<close>

fun is_function :: "jsval \<Rightarrow> bool" where
  "is_function (JFun f) = True"
| "is_function JNoop = True"
| "is_function v = False"

text \<open>
  What the module takes from outside the repository: the \<^verbatim>\<open>uuid\<close> package, the
  \<^verbatim>\<open>JSON\<close> and \<^verbatim>\<open>Buffer\<close> built-ins, and the behaviour of the closures the
  caller passes in. They are parameters of every operation:
  \<^item> \<open>uuid_v4 n\<close> is the string the \<open>n\<close>-th call of \<^verbatim>\<open>uuid.v4()\<close> (or \<^verbatim>\<open>uuid()\<close>)
    returns;
  \<^item> \<open>json_stringify\<close> is \<^verbatim>\<open>JSON.stringify\<close> (it returns \<^verbatim>\<open>undefined\<close> for some
    values and throws for others), \<open>json_parse\<close> is \<^verbatim>\<open>JSON.parse\<close> on a string;
  \<^item> \<open>buffer_from\<close> is \<^verbatim>\<open>Buffer.from\<close>, \<open>buffer_toString\<close> is
    \<^verbatim>\<open>Buffer.prototype.toString\<close>;
  \<^item> \<open>throws f args\<close> is what calling closure \<open>f\<close> on \<open>args\<close> throws, if anything.
  Closures are opaque: one that calls back into the client is outside this model.
\<close>

record platform =
  uuid_v4 :: "nat \<Rightarrow> string"
  json_stringify :: "jsval \<Rightarrow> error + jsval"
  json_parse :: "string \<Rightarrow> error + jsval"
  buffer_from :: "jsval \<Rightarrow> error + string"
  buffer_toString :: "string \<Rightarrow> string"
  throws :: "nat \<Rightarrow> jsval list \<Rightarrow> error option"

section \<open>The client and its runtime\<close>

text \<open>
  One entry of \<^verbatim>\<open>this.subs\<close>. \<open>queue\<close> is \<^verbatim>\<open>parsedOpts.queue\<close>: \<open>None\<close> when the
  options carry no queue. \<open>expected\<close> and \<open>timeout\<close> do not exist until
  \<^verbatim>\<open>timeout\<close> assigns them; \<open>timeout\<close> is the handle \<^verbatim>\<open>setTimeout\<close> returned, and
  \<open>None\<close> stands for both \<^verbatim>\<open>undefined\<close> and \<^verbatim>\<open>null\<close> (the code only tests its
  truthiness).
\<close>

record sub =
  subject :: string
  queue :: "string option"
  cb :: jsval
  sid :: string
  received :: nat
  expected :: "int option"
  timeout :: "nat option"

text \<open>What a timer or a \<^verbatim>\<open>process.nextTick\<close> callback of this module does when it runs.\<close>

datatype task =
    Emit_task string
  | Cb_task jsval string

text \<open>
  The steps a caller can observe, in program order: a counter update of the subscription
  at a registry position, a cancelled timer, a call of a closure, an emitted event.
\<close>

datatype event =
    Received nat nat
  | ClearTimeout nat
  | Call jsval "jsval list"
  | Emit string

text \<open>
  The fields of the class (\<open>subs\<close>, \<open>useJson\<close>, \<open>preserveBuffers\<close>, \<open>connected\<close>;
  the constructor does not assign \<open>connected\<close>, so it reads \<^verbatim>\<open>undefined\<close>, here
  \<open>None\<close>, until \<^verbatim>\<open>connect\<close> or \<^verbatim>\<open>close\<close> runs) and the part of the runtime the
  methods touch: how many uuids were drawn, the pending timers (handle, due time, task),
  the next timer handle, the \<^verbatim>\<open>nextTick\<close> queue and a clock in milliseconds.
\<close>

record state =
  subs :: "sub list"
  useJson :: bool
  preserveBuffers :: bool
  connected :: "bool option"
  uuid_calls :: nat
  timers :: "(nat \<times> nat \<times> task) list"
  next_timer :: nat
  ticks :: "task list"
  clock :: nat

subsection \<open>Timers and the event loop\<close>

text \<open>
  \<^verbatim>\<open>setTimeout(task, delay)\<close>: Node runs a delay below 1 or above \<open>2^31 - 1\<close> as 1.
\<close>

definition timer_delay :: "int \<Rightarrow> nat" where
  "timer_delay d = (if d < 1 \<or> 2147483647 < d then 1 else nat d)"

definition setTimeout :: "task \<Rightarrow> int \<Rightarrow> state \<Rightarrow> nat \<times> state" where
  "setTimeout t d st =
     (next_timer st,
      st\<lparr>timers := timers st @ [(next_timer st, clock st + timer_delay d, t)],
         next_timer := Suc (next_timer st)\<rparr>)"

definition clearTimeout :: "nat \<Rightarrow> state \<Rightarrow> state" where
  "clearTimeout h st = st\<lparr>timers := filter (\<lambda>t. fst t \<noteq> h) (timers st)\<rparr>"

definition nextTick :: "task \<Rightarrow> state \<Rightarrow> state" where
  "nextTick t st = st\<lparr>ticks := ticks st @ [t]\<rparr>"

text \<open>
  Running a task. Calling what is not a function calls nothing; the TypeError it raises
  inside a timer has no caller to reach and is not modelled.
\<close>

fun run_task :: "task \<Rightarrow> event list" where
  "run_task (Emit_task name) = [Emit name]"
| "run_task (Cb_task f s) = (if is_function f then [Call f [JStr s]] else [])"

text \<open>
  The caller yields for \<open>d\<close> milliseconds: the \<^verbatim>\<open>nextTick\<close> queue runs first, then the
  timers that are due by then, by due time and, at equal due times, in the order they
  were set.
\<close>

definition is_due :: "nat \<Rightarrow> nat \<times> nat \<times> task \<Rightarrow> bool" where
  "is_due t e = (fst (snd e) \<le> t)"

definition yield :: "nat \<Rightarrow> state \<Rightarrow> state \<times> event list" where
  "yield d st =
     (let t = clock st + d;
          due = sort_key (\<lambda>e. fst (snd e)) (filter (is_due t) (timers st))
      in (st\<lparr>ticks := [], timers := filter (\<lambda>e. \<not> is_due t e) (timers st), clock := t\<rparr>,
          concat (map run_task (ticks st)) @ concat (map (\<lambda>e. run_task (snd (snd e))) due)))"

subsection \<open>Plain objects used as dictionaries\<close>

text \<open>
  \<^verbatim>\<open>let onePerQueue = {}\<close> is an ordinary object. Its own properties are kept here in
  creation order. Three facts of the language matter to \<^verbatim>\<open>_findSubscribesBySubject\<close>:
  \<^item> assigning to an existing key replaces the value and keeps the key's position;
  \<^item> assigning an object to the key \<^verbatim>\<open>__proto__\<close> runs the setter inherited from
    \<^verbatim>\<open>Object.prototype\<close>: it changes the prototype and creates no own property;
  \<^item> \<^verbatim>\<open>Object.values\<close> lists the own properties whose key is an array index (a
    canonical decimal numeral below \<open>2^32 - 1\<close>) first, in ascending numeric order, and
    then the others in creation order.
\<close>

definition is_digit :: "char \<Rightarrow> bool" where
  "is_digit c = (48 \<le> (of_char c :: nat) \<and> (of_char c :: nat) \<le> 57)"

definition digits_value :: "string \<Rightarrow> nat" where
  "digits_value k = foldl (\<lambda>n c. 10 * n + ((of_char c :: nat) - 48)) 0 k"

definition is_array_index :: "string \<Rightarrow> bool" where
  "is_array_index k =
     (k \<noteq> [] \<and> list_all is_digit k \<and> (k = ''0'' \<or> hd k \<noteq> CHR ''0'')
      \<and> length k \<le> 10 \<and> digits_value k < 4294967295)"

definition obj_set :: "string \<Rightarrow> 'v \<Rightarrow> (string \<times> 'v) list \<Rightarrow> (string \<times> 'v) list" where
  "obj_set k v obj =
     (if k = ''__proto__'' then obj
      else if k \<in> fst ` set obj then map (\<lambda>p. if fst p = k then (k, v) else p) obj
      else obj @ [(k, v)])"

definition obj_values :: "(string \<times> 'v) list \<Rightarrow> 'v list" where
  "obj_values obj =
     map snd (sort_key (\<lambda>p. digits_value (fst p)) (filter (\<lambda>p. is_array_index (fst p)) obj)
              @ filter (\<lambda>p. \<not> is_array_index (fst p)) obj)"

section \<open>Subject matching\<close>

text \<open>
  Modelled from the spec: \<^verbatim>\<open>utils.matchSubject\<close> lives in \<^verbatim>\<open>./utils\<close>, which is not
  among the sources. Section 4.3, step 3: subject and pattern are cut at \<^verbatim>\<open>.\<close>; a
  pattern segment \<^verbatim>\<open>*\<close> matches exactly one subject segment; a pattern segment \<^verbatim>\<open>>\<close>
  must be the last one and matches one or more trailing subject segments; every other
  segment matches literally; the segment counts agree but for a trailing \<^verbatim>\<open>>\<close>.
\<close>

fun split_on :: "char \<Rightarrow> string \<Rightarrow> string list" where
  "split_on d [] = [[]]"
| "split_on d (c # cs) =
     (if c = d then [] # split_on d cs
      else (case split_on d cs of [] \<Rightarrow> [[c]] | w # ws \<Rightarrow> (c # w) # ws))"

fun match_tokens :: "string list \<Rightarrow> string list \<Rightarrow> bool" where
  "match_tokens [] [] = True"
| "match_tokens (s # ss) (p # ps) =
     (if p = ''>'' then ps = [] else (p = ''*'' \<or> p = s) \<and> match_tokens ss ps)"
| "match_tokens ss ps = False"

definition matchSubject :: "string \<Rightarrow> string \<Rightarrow> bool" where
  "matchSubject subj pattern =
     match_tokens (split_on CHR ''.'' subj) (split_on CHR ''.'' pattern)"

text \<open>
  The same rules read as a condition on the two segment lists, for comparison with
  \<open>match_tokens\<close>: either the lists have the same length and agree position by position
  (a \<^verbatim>\<open>*\<close> agreeing with anything, and no \<^verbatim>\<open>>\<close> in the pattern), or the pattern ends in
  \<^verbatim>\<open>>\<close>, is no longer than the subject, and agrees with it on the positions before that
  last one.
\<close>

definition segment_ok :: "string \<Rightarrow> string \<Rightarrow> bool" where
  "segment_ok s p = (p \<noteq> ''>'' \<and> (p = ''*'' \<or> p = s))"

definition spec_match :: "string list \<Rightarrow> string list \<Rightarrow> bool" where
  "spec_match ss ps =
     ((length ss = length ps \<and> (\<forall>i < length ps. segment_ok (ss ! i) (ps ! i)))
      \<or> (ps \<noteq> [] \<and> last ps = ''>'' \<and> length ps \<le> length ss
           \<and> (\<forall>i < length ps - 1. segment_ok (ss ! i) (ps ! i))))"

section \<open>The methods of MockNatsClient\<close>

text \<open>The constructor's \<^verbatim>\<open>opts\<close>: each key is absent or carries a truth value.\<close>

record client_opts =
  opt_json :: "bool option"
  opt_preserveBuffers :: "bool option"

definition new_client :: "client_opts \<Rightarrow> state \<Rightarrow> state" where
  "new_client opts rt =
     rt\<lparr>subs := [],
        useJson := (case opt_json opts of Some b \<Rightarrow> b | None \<Rightarrow> False),
        preserveBuffers := (case opt_preserveBuffers opts of Some b \<Rightarrow> b | None \<Rightarrow> False),
        connected := None\<rparr>"

text \<open>A runtime in which nothing has happened yet.\<close>

definition fresh_runtime :: state where
  "fresh_runtime =
     \<lparr>subs = [], useJson = False, preserveBuffers = False, connected = None,
      uuid_calls = 0, timers = [], next_timer = 0, ticks = [], clock = 0\<rparr>"

text \<open>
  \<^verbatim>\<open>connect(opts)\<close> does not read its argument: it assigns the flag and sets a timer of
  10 ms for the event. \<^verbatim>\<open>close()\<close> replaces the registry by an empty one, assigns the
  flag and leaves the event to \<^verbatim>\<open>process.nextTick\<close>; it cancels no timer.
\<close>

definition connect :: "state \<Rightarrow> state" where
  "connect st = snd (setTimeout (Emit_task ''connect'') 10 (st\<lparr>connected := Some True\<rparr>))"

definition close :: "state \<Rightarrow> state" where
  "close st = nextTick (Emit_task ''disconnect'') (st\<lparr>subs := [], connected := Some False\<rparr>)"

text \<open>
  The second argument of \<^verbatim>\<open>subscribe\<close>: a function, an options object (with or
  without a string \<^verbatim>\<open>queue\<close>), or a falsy value.
\<close>

datatype opts_arg =
    Opts_fun nat
  | Opts_obj "string option"
  | Opts_none

definition draw_uuid :: "platform \<Rightarrow> state \<Rightarrow> string \<times> state" where
  "draw_uuid P st = (uuid_v4 P (uuid_calls st), st\<lparr>uuid_calls := Suc (uuid_calls st)\<rparr>)"

definition subscribe :: "platform \<Rightarrow> string \<Rightarrow> opts_arg \<Rightarrow> jsval \<Rightarrow> state \<Rightarrow> string \<times> state" where
  "subscribe P subj opts cb0 st =
     (let (new_sid, st1) = draw_uuid P st;
          (parsedCb, parsedQueue) =
             (case opts of
                Opts_fun f \<Rightarrow> (JFun f, None)
              | Opts_obj q \<Rightarrow> (cb0, q)
              | Opts_none \<Rightarrow> (cb0, None))
      in (new_sid,
          st1\<lparr>subs := subs st1 @
                 [\<lparr>subject = subj, queue = parsedQueue, cb = parsedCb, sid = new_sid,
                   received = 0, expected = None, timeout = None\<rparr>]\<rparr>))"

text \<open>
  \<^verbatim>\<open>this.subs.find(sub => sub.sid === sid)\<close>: the first entry with that sid, here its
  position in the registry (the entries are distinct objects, so the position is the
  object's identity).
\<close>

fun find_from :: "nat \<Rightarrow> ('a \<Rightarrow> bool) \<Rightarrow> 'a list \<Rightarrow> nat option" where
  "find_from n p [] = None"
| "find_from n p (x # xs) = (if p x then Some n else find_from (Suc n) p xs)"

definition findSubscribeBySid :: "string \<Rightarrow> state \<Rightarrow> nat option" where
  "findSubscribeBySid s st = find_from 0 (\<lambda>x. sid x = s) (subs st)"

definition unsubscribe :: "string \<Rightarrow> state \<Rightarrow> state" where
  "unsubscribe s st =
     (case findSubscribeBySid s st of
        None \<Rightarrow> st
      | Some i \<Rightarrow> st\<lparr>subs := take i (subs st) @ drop (Suc i) (subs st)\<rparr>)"

text \<open>
  \<^verbatim>\<open>timeout(sid, timeout, expected, cb = () => { })\<close>: the default replaces a missing
  (\<^verbatim>\<open>undefined\<close>) callback only.
\<close>

definition timeout_m :: "string \<Rightarrow> int \<Rightarrow> int \<Rightarrow> jsval \<Rightarrow> state \<Rightarrow> state" where
  "timeout_m s duration expected_count cb0 st =
     (let f = (if cb0 = JUndefined then JNoop else cb0)
      in case findSubscribeBySid s st of
           None \<Rightarrow> st
         | Some i \<Rightarrow>
             (let (h, st1) = setTimeout (Cb_task f s) duration st
              in st1\<lparr>subs := (subs st1)[i := (subs st1 ! i)\<lparr>expected := Some expected_count,
                                                          timeout := Some h\<rparr>]\<rparr>))"

text \<open>
  \<^verbatim>\<open>_findSubscribesBySubject\<close>: the positions of the matching entries, then one
  assignment into \<^verbatim>\<open>onePerQueue\<close> per match under the key
  \<^verbatim>\<open>sub.queue || uuid.v4()\<close> (a uuid is drawn only when the queue is missing or empty),
  then \<^verbatim>\<open>Object.values\<close>.
\<close>

definition queue_key :: "platform \<Rightarrow> sub \<Rightarrow> state \<Rightarrow> string \<times> state" where
  "queue_key P s st =
     (case queue s of
        None \<Rightarrow> draw_uuid P st
      | Some q \<Rightarrow> if q = [] then draw_uuid P st else (q, st))"

fun onePerQueue_fill ::
  "platform \<Rightarrow> nat list \<Rightarrow> (string \<times> nat) list \<Rightarrow> state \<Rightarrow> (string \<times> nat) list \<times> state" where
  "onePerQueue_fill P [] obj st = (obj, st)"
| "onePerQueue_fill P (i # is) obj st =
     (let (k, st1) = queue_key P (subs st ! i) st
      in onePerQueue_fill P is (obj_set k i obj) st1)"

definition matches :: "string \<Rightarrow> state \<Rightarrow> nat list" where
  "matches subj st = filter (\<lambda>i. matchSubject subj (subject (subs st ! i))) [0 ..< length (subs st)]"

definition findSubscribesBySubject :: "platform \<Rightarrow> string \<Rightarrow> state \<Rightarrow> nat list \<times> state" where
  "findSubscribesBySubject P subj st =
     (let (onePerQueue, st1) = onePerQueue_fill P (matches subj st) [] st
      in (obj_values onePerQueue, st1))"

text \<open>
  The first lines of \<^verbatim>\<open>publish\<close>: encode, make a Buffer, decode. \<^verbatim>\<open>JSON.parse\<close>
  converts the Buffer it is given to a string first.
\<close>

definition decode_payload :: "platform \<Rightarrow> state \<Rightarrow> jsval \<Rightarrow> error + jsval" where
  "decode_payload P st message =
     (case (if useJson st then json_stringify P message else Inr message) of
        Inl e \<Rightarrow> Inl e
      | Inr content \<Rightarrow>
          (case (case content of JBuf b \<Rightarrow> Inr b | _ \<Rightarrow> buffer_from P content) of
             Inl e \<Rightarrow> Inl e
           | Inr payload \<Rightarrow>
               if useJson st then json_parse P (buffer_toString P payload)
               else if \<not> preserveBuffers st then Inr (JStr (buffer_toString P payload))
               else Inr (JBuf payload)))"

text \<open>\<^verbatim>\<open>sub.cb(delivery, replyTo, subject)\<close>: calling what is not a function is a TypeError.\<close>

fun call_fn :: "platform \<Rightarrow> jsval \<Rightarrow> jsval list \<Rightarrow> error option \<times> event list" where
  "call_fn P (JFun f) args = (throws P f args, [Call (JFun f) args])"
| "call_fn P JNoop args = (None, [Call JNoop args])"
| "call_fn P v args = (Some TypeError, [])"

text \<open>
  The body of the \<^verbatim>\<open>forEach\<close> callback up to the call of the handler: count, then
  cancel the timer when one is set and the count has reached \<open>expected\<close>. (The test
  \<^verbatim>\<open>if (sub)\<close> always succeeds: the values of \<^verbatim>\<open>onePerQueue\<close> are registry entries.)
\<close>

definition reached :: "nat \<Rightarrow> int option \<Rightarrow> bool" where
  "reached n e = (case e of None \<Rightarrow> False | Some x \<Rightarrow> x \<le> int n)"

definition count_one :: "nat \<Rightarrow> state \<Rightarrow> state \<times> event list" where
  "count_one i st =
     (let s = (subs st ! i)\<lparr>received := Suc (received (subs st ! i))\<rparr>
      in case timeout s of
           Some h \<Rightarrow>
             if reached (received s) (expected s)
             then ((clearTimeout h st)\<lparr>subs := (subs st)[i := s\<lparr>timeout := None\<rparr>]\<rparr>,
                   [Received i (received s), ClearTimeout h])
             else (st\<lparr>subs := (subs st)[i := s]\<rparr>, [Received i (received s)])
         | None \<Rightarrow> (st\<lparr>subs := (subs st)[i := s]\<rparr>, [Received i (received s)]))"

text \<open>
  \<^verbatim>\<open>subs.forEach(...)\<close>: a handler that throws ends the loop, and the error reaches
  the caller of \<^verbatim>\<open>publish\<close> with the state as it is by then.
\<close>

fun deliver ::
  "platform \<Rightarrow> jsval \<Rightarrow> jsval \<Rightarrow> string \<Rightarrow> nat list \<Rightarrow> state \<Rightarrow> error option \<times> state \<times> event list" where
  "deliver P d replyTo subj [] st = (None, st, [])"
| "deliver P d replyTo subj (i # is) st =
     (let (st1, evs) = count_one i st;
          (thrown, called) = call_fn P (cb (subs st1 ! i)) [d, replyTo, JStr subj]
      in case thrown of
           Some e \<Rightarrow> (Some e, st1, evs @ called)
         | None \<Rightarrow>
             (let (r, st2, evs2) = deliver P d replyTo subj is st1
              in (r, st2, evs @ called @ evs2)))"

definition publish ::
  "platform \<Rightarrow> string \<Rightarrow> jsval \<Rightarrow> jsval \<Rightarrow> state \<Rightarrow> error option \<times> state \<times> event list" where
  "publish P subj message replyTo st =
     (case decode_payload P st message of
        Inl e \<Rightarrow> (Some e, st, [])
      | Inr delivery \<Rightarrow>
          (let (sel, st1) = findSubscribesBySubject P subj st
           in deliver P delivery replyTo subj sel st1))"

text \<open>
  \<^verbatim>\<open>requestOne\<close>. The module binds \<^verbatim>\<open>uuid\<close>, \<^verbatim>\<open>utils\<close>, \<^verbatim>\<open>EventEmitter\<close> and
  \<^verbatim>\<open>MockNatsClient\<close> and nothing else, so evaluating \<^verbatim>\<open>EMPTY\<close> in
  \<^verbatim>\<open>message = EMPTY\<close> is a ReferenceError. The assignments to \<^verbatim>\<open>callback\<close> and
  \<^verbatim>\<open>options\<close> are kept although nothing reads them afterwards.
\<close>

definition requestOne ::
  "platform \<Rightarrow> string \<Rightarrow> jsval \<Rightarrow> jsval \<Rightarrow> jsval \<Rightarrow> state \<Rightarrow> (error + string) \<times> state \<times> event list" where
  "requestOne P subj message options callback st =
     (let (new_sid, st1) = draw_uuid P st
      in if is_function message then (Inl (ReferenceError ''EMPTY''), st1, [])
         else
           (let (callback1, options1) =
                  (if is_function options then (options, JNull) else (callback, options));
                (r, st2, evs) = publish P subj message (JStr new_sid) st1
            in case r of
                 Some e \<Rightarrow> (Inl e, st2, evs)
               | None \<Rightarrow> (Inr new_sid, st2, evs)))"

section \<open>A concrete platform\<close>

text \<open>
  An instance of the platform for running the methods on concrete inputs: Node on ASCII
  strings and on JSON text without white space, escapes or fractions. \<^verbatim>\<open>Buffer.from\<close>
  of an ASCII string is its bytes and \<^verbatim>\<open>toString\<close> gives them back;
  \<^verbatim>\<open>JSON.stringify\<close> returns \<^verbatim>\<open>undefined\<close> for \<^verbatim>\<open>undefined\<close> and for functions, which
  inside an array print as \<^verbatim>\<open>null\<close> and inside an object are left out. Outside this
  fragment the instance answers \<open>Unmodelled\<close> (and \<open>buffer_toString\<close>, which has no
  error to return, is Node's only on ASCII bytes). The uuids are distinct strings of the
  version-4 shape, and no closure throws.
\<close>

fun digits_of :: "nat \<Rightarrow> string" where
  "digits_of n =
     (if n < 10 then [char_of (48 + n)]
      else digits_of (n div 10) @ [char_of (48 + n mod 10)])"

definition show_int :: "int \<Rightarrow> string" where
  "show_int i = (if i < 0 then CHR ''-'' # digits_of (nat (- i)) else digits_of (nat i))"

definition plain_char :: "char \<Rightarrow> bool" where
  "plain_char c =
     (32 \<le> (of_char c :: nat) \<and> (of_char c :: nat) < 127 \<and> c \<noteq> CHR 0x22 \<and> c \<noteq> CHR 0x5C)"

fun join :: "string \<Rightarrow> string list \<Rightarrow> string" where
  "join s [] = []"
| "join s [x] = x"
| "join s (x # y # ys) = x @ s @ join s (y # ys)"

definition quoted :: "string \<Rightarrow> string option" where
  "quoted s = (if list_all plain_char s then Some ([CHR 0x22] @ s @ [CHR 0x22]) else None)"

fun json_text :: "jsval \<Rightarrow> string option" where
  "json_text JNull = Some ''null''"
| "json_text (JBool b) = Some (if b then ''true'' else ''false'')"
| "json_text (JNum i) = Some (show_int i)"
| "json_text (JStr s) = quoted s"
| "json_text (JArr vs) =
     map_option (\<lambda>ts. ''['' @ join '','' ts @ '']'')
       (those (map (\<lambda>v. if v = JUndefined \<or> is_function v then Some ''null'' else json_text v) vs))"
| "json_text (JObj kvs) =
     map_option (\<lambda>ts. ''{'' @ join '','' ts @ ''}'')
       (those (map (\<lambda>p. case (quoted (fst p), json_text (snd p)) of
                            (Some k, Some t) \<Rightarrow> Some (k @ '':'' @ t)
                          | _ \<Rightarrow> None)
                 (filter (\<lambda>p. \<not> (snd p = JUndefined \<or> is_function (snd p))) kvs)))"
| "json_text v = None"

fun strip :: "string \<Rightarrow> string \<Rightarrow> string option" where
  "strip [] cs = Some cs"
| "strip (p # ps) [] = None"
| "strip (p # ps) (c # cs) = (if p = c then strip ps cs else None)"

definition starts :: "string \<Rightarrow> string \<Rightarrow> bool" where
  "starts p cs = (strip p cs \<noteq> None)"

definition after :: "string \<Rightarrow> string \<Rightarrow> string" where
  "after p cs = drop (length p) cs"

definition parse_number :: "string \<Rightarrow> (jsval \<times> string) option" where
  "parse_number cs =
     (let neg = starts ''-'' cs;
          r = (if neg then after ''-'' cs else cs);
          ds = takeWhile is_digit r;
          rest = dropWhile is_digit r
      in if ds = [] \<or> (1 < length ds \<and> hd ds = CHR ''0'') \<or> (neg \<and> digits_value ds = 0)
            \<or> starts ''.'' rest \<or> starts ''e'' rest \<or> starts ''E'' rest
         then None
         else Some (JNum (if neg then - int (digits_value ds) else int (digits_value ds)), rest))"

definition parse_string :: "string \<Rightarrow> (string \<times> string) option" where
  "parse_string cs =
     (if \<not> starts [CHR 0x22] cs then None
      else
        (let r = after [CHR 0x22] cs;
             s = takeWhile (\<lambda>c. c \<noteq> CHR 0x22) r;
             rest = dropWhile (\<lambda>c. c \<noteq> CHR 0x22) r
         in if starts [CHR 0x22] rest \<and> list_all plain_char s
            then Some (s, after [CHR 0x22] rest) else None))"

definition plain_keys :: "(string \<times> jsval) list \<Rightarrow> bool" where
  "plain_keys kvs =
     (distinct (map fst kvs)
      \<and> list_all (\<lambda>p. \<not> is_array_index (fst p) \<and> fst p \<noteq> ''__proto__'') kvs)"

fun parse_value :: "nat \<Rightarrow> string \<Rightarrow> (jsval \<times> string) option"
  and parse_elems :: "nat \<Rightarrow> string \<Rightarrow> (jsval list \<times> string) option"
  and parse_members :: "nat \<Rightarrow> string \<Rightarrow> ((string \<times> jsval) list \<times> string) option" where
  "parse_value 0 cs = None"
| "parse_value (Suc n) cs =
     (if starts ''null'' cs then Some (JNull, after ''null'' cs)
      else if starts ''true'' cs then Some (JBool True, after ''true'' cs)
      else if starts ''false'' cs then Some (JBool False, after ''false'' cs)
      else if starts [CHR 0x22] cs then map_option (\<lambda>(s, r). (JStr s, r)) (parse_string cs)
      else if starts ''[]'' cs then Some (JArr [], after ''[]'' cs)
      else if starts ''{}'' cs then Some (JObj [], after ''{}'' cs)
      else if starts ''['' cs then map_option (\<lambda>(vs, r). (JArr vs, r)) (parse_elems n (after ''['' cs))
      else if starts ''{'' cs then
        (case parse_members n (after ''{'' cs) of
           None \<Rightarrow> None
         | Some (kvs, r) \<Rightarrow> if plain_keys kvs then Some (JObj kvs, r) else None)
      else parse_number cs)"
| "parse_elems 0 cs = None"
| "parse_elems (Suc n) cs =
     (case parse_value n cs of
        None \<Rightarrow> None
      | Some (v, r) \<Rightarrow>
          if starts '']'' r then Some ([v], after '']'' r)
          else if starts '','' r then map_option (\<lambda>(vs, r'). (v # vs, r')) (parse_elems n (after '','' r))
          else None)"
| "parse_members 0 cs = None"
| "parse_members (Suc n) cs =
     (case parse_string cs of
        None \<Rightarrow> None
      | Some (k, r) \<Rightarrow>
          if \<not> starts '':'' r then None
          else
            (case parse_value n (after '':'' r) of
               None \<Rightarrow> None
             | Some (v, r2) \<Rightarrow>
                 if starts ''}'' r2 then Some ([(k, v)], after ''}'' r2)
                 else if starts '','' r2
                 then map_option (\<lambda>(kvs, r'). ((k, v) # kvs, r')) (parse_members n (after '','' r2))
                 else None))"

definition is_ascii :: "string \<Rightarrow> bool" where
  "is_ascii s = list_all (\<lambda>c. (of_char c :: nat) < 128) s"

definition ascii_stringify :: "jsval \<Rightarrow> error + jsval" where
  "ascii_stringify v =
     (if v = JUndefined \<or> is_function v then Inr JUndefined
      else case json_text v of Some t \<Rightarrow> Inr (JStr t) | None \<Rightarrow> Inl Unmodelled)"

definition ascii_parse :: "string \<Rightarrow> error + jsval" where
  "ascii_parse s =
     (case parse_value (Suc (length s)) s of
        Some (v, []) \<Rightarrow> Inr v
      | _ \<Rightarrow> Inl Unmodelled)"

fun ascii_buffer_from :: "jsval \<Rightarrow> error + string" where
  "ascii_buffer_from (JStr s) = (if is_ascii s then Inr s else Inl Unmodelled)"
| "ascii_buffer_from (JBuf b) = Inr b"
| "ascii_buffer_from (JArr vs) = Inl Unmodelled"
| "ascii_buffer_from (JObj kvs) = Inl Unmodelled"
| "ascii_buffer_from v = Inl TypeError"

definition ascii_uuid :: "nat \<Rightarrow> string" where
  "ascii_uuid n =
     ''00000000-0000-4000-8000-'' @ replicate (12 - length (digits_of n)) CHR ''0'' @ digits_of n"

definition ascii_node :: platform where
  "ascii_node =
     \<lparr>uuid_v4 = ascii_uuid, json_stringify = ascii_stringify, json_parse = ascii_parse,
      buffer_from = ascii_buffer_from, buffer_toString = (\<lambda>b. b),
      throws = (\<lambda>f args. None)\<rparr>"

subsection \<open>Clients used as examples\<close>

definition default_client :: state where
  "default_client = new_client \<lparr>opt_json = None, opt_preserveBuffers = None\<rparr> fresh_runtime"

definition json_client :: state where
  "json_client = new_client \<lparr>opt_json = Some True, opt_preserveBuffers = None\<rparr> fresh_runtime"

text \<open>
  Three subscriptions to the subject \<^verbatim>\<open>a.b\<close>: the first and the third share the queue
  group \<^verbatim>\<open>q\<close>, the second has none.
\<close>

definition grouped_registry :: "state \<Rightarrow> state" where
  "grouped_registry st =
     snd (subscribe ascii_node ''a.b'' (Opts_obj (Some ''q'')) (JFun 3)
       (snd (subscribe ascii_node ''a.b'' (Opts_fun 2) JUndefined
         (snd (subscribe ascii_node ''a.b'' (Opts_obj (Some ''q'')) (JFun 1) st)))))"

text \<open>Two subscriptions to \<^verbatim>\<open>a\<close> in the queue group named \<^verbatim>\<open>__proto__\<close>.\<close>

definition proto_registry :: state where
  "proto_registry =
     snd (subscribe ascii_node ''a'' (Opts_obj (Some ''__proto__'')) (JFun 2)
       (snd (subscribe ascii_node ''a'' (Opts_obj (Some ''__proto__'')) (JFun 1) default_client)))"


text \<open>Two subscriptions without queue group that both match \<^verbatim>\<open>a.b\<close>.\<close>

definition plain_registry :: state where
  "plain_registry =
     snd (subscribe ascii_node ''a.b'' (Opts_fun 2) JUndefined
       (snd (subscribe ascii_node ''a.*'' (Opts_none) (JFun 1) default_client)))"


subsection \<open>Notions used in the statements\<close>

text \<open>
  The platform's codecs give the value back: \<^verbatim>\<open>JSON.stringify\<close> yields a string,
  \<^verbatim>\<open>Buffer.from\<close> accepts it, and \<^verbatim>\<open>JSON.parse\<close> of the Buffer's text is the value again;
  and for a string, the text of its Buffer is the string.
\<close>

definition json_round_trip :: "platform \<Rightarrow> jsval \<Rightarrow> bool" where
  "json_round_trip P m =
     (case json_stringify P m of
        Inr (JStr t) \<Rightarrow>
          (case buffer_from P (JStr t) of
             Inr b \<Rightarrow> json_parse P (buffer_toString P b) = Inr m
           | Inl e \<Rightarrow> False)
      | _ \<Rightarrow> False)"

definition text_round_trip :: "platform \<Rightarrow> string \<Rightarrow> bool" where
  "text_round_trip P s =
     (case buffer_from P (JStr s) of Inr b \<Rightarrow> buffer_toString P b = s | Inl e \<Rightarrow> False)"

text \<open>The argument lists of the calls in a trace, and the registry positions it counted.\<close>

fun call_args :: "event list \<Rightarrow> jsval list list" where
  "call_args [] = []"
| "call_args (Call f args # evs) = args # call_args evs"
| "call_args (ev # evs) = call_args evs"

fun visited :: "event list \<Rightarrow> nat list" where
  "visited [] = []"
| "visited (Received i n # evs) = i # visited evs"
| "visited (ev # evs) = visited evs"

text \<open>
  What one turn of the delivery loop does for the subscription at position \<open>i\<close>, read
  off a given state: the new count, the cancellation when that count reaches the expected
  one, the call of the handler.
\<close>

definition visit_events :: "platform \<Rightarrow> state \<Rightarrow> jsval \<Rightarrow> jsval \<Rightarrow> string \<Rightarrow> nat \<Rightarrow> event list" where
  "visit_events P st d r subj i =
     (let s = subs st ! i; n = Suc (received s)
      in Received i n
         # (case timeout s of
              Some h \<Rightarrow> if reached n (expected s) then [ClearTimeout h] else []
            | None \<Rightarrow> [])
         @ snd (call_fn P (cb s) [d, r, JStr subj]))"

text \<open>
  A subscription without a queue group (none given, or the empty string), and the
  condition that the next \<open>n\<close> uuids are new: distinct strings that are neither array
  indices nor \<^verbatim>\<open>__proto__\<close>.
\<close>

definition ungrouped :: "sub \<Rightarrow> bool" where
  "ungrouped s = (case queue s of None \<Rightarrow> True | Some q \<Rightarrow> q = [])"

definition plain_key :: "string \<Rightarrow> bool" where
  "plain_key k = (\<not> is_array_index k \<and> k \<noteq> ''__proto__'')"

definition fresh_uuids :: "platform \<Rightarrow> nat \<Rightarrow> nat \<Rightarrow> bool" where
  "fresh_uuids P c n =
     (distinct (map (uuid_v4 P) [c ..< c + n]) \<and> list_all plain_key (map (uuid_v4 P) [c ..< c + n]))"

text \<open>
  \<open>last_of_group st js v\<close>: the subscription at position \<open>v\<close> has no queue group, or no
  later position among \<open>js\<close> has the same queue group. \<open>uuids_apart\<close> says that the
  uuids the selection can draw are new and differ from every queue name among the
  matching subscriptions, and that none of these is named \<^verbatim>\<open>__proto__\<close>. \<open>fill_inv\<close> is
  the invariant of the loop that fills \<^verbatim>\<open>onePerQueue\<close>, after the positions \<open>seen\<close>: the
  keys are distinct, every entry holds a position already seen under that position's key
  (its queue name, or one of the uuids drawn so far), and the positions it holds are the
  ones that are last of their group so far.
\<close>

definition last_of_group :: "state \<Rightarrow> nat list \<Rightarrow> nat \<Rightarrow> bool" where
  "last_of_group st js v =
     (ungrouped (subs st ! v)
      \<or> list_all (\<lambda>w. w \<le> v \<or> queue (subs st ! w) \<noteq> queue (subs st ! v)) js)"

definition uuids_apart :: "platform \<Rightarrow> state \<Rightarrow> nat list \<Rightarrow> bool" where
  "uuids_apart P st ms =
     (fresh_uuids P (uuid_calls st) (length ms)
      \<and> list_all (\<lambda>i. queue (subs st ! i) \<noteq> Some ''__proto__''
                     \<and> list_all (\<lambda>n. queue (subs st ! i) \<noteq> Some (uuid_v4 P n))
                          [uuid_calls st ..< uuid_calls st + length ms]) ms)"

definition key_ok :: "platform \<Rightarrow> state \<Rightarrow> nat \<Rightarrow> nat \<Rightarrow> string \<times> nat \<Rightarrow> bool" where
  "key_ok P st c0 c p =
     (if ungrouped (subs st ! snd p) then fst p \<in> uuid_v4 P ` {c0 ..< c}
      else queue (subs st ! snd p) = Some (fst p))"

definition fill_inv :: "platform \<Rightarrow> state \<Rightarrow> nat \<Rightarrow> (string \<times> nat) list \<Rightarrow> nat list \<Rightarrow> nat \<Rightarrow> bool" where
  "fill_inv P st c0 obj seen c =
     (distinct (map fst obj)
      \<and> (\<forall>p \<in> set obj. snd p \<in> set seen \<and> key_ok P st c0 c p)
      \<and> (\<forall>v \<in> set seen. (v \<in> snd ` set obj) = last_of_group st seen v))"

text \<open>\<open>n\<close> deliveries in a row to the subscription at position \<open>i\<close>.\<close>

definition count_many :: "nat \<Rightarrow> nat \<Rightarrow> state \<Rightarrow> state" where
  "count_many i n st = ((\<lambda>s. fst (count_one i s)) ^^ n) st"

text \<open>
  Timer handles are handed out in increasing order: the handles of the pending timers lie
  below the next one.
\<close>

definition timers_wf :: "state \<Rightarrow> bool" where
  "timers_wf st = list_all (\<lambda>t. fst t < next_timer st) (timers st)"

subsection \<open>Programs over the client\<close>

text \<open>
  What a caller can do with a client: call one of its methods, or let \<open>d\<close> milliseconds
  pass (\<open>Yield d\<close>). A program is a list of such calls; \<open>run\<close> threads the state through
  it and concatenates what was observed. An error raised by \<^verbatim>\<open>publish\<close> or
  \<^verbatim>\<open>requestOne\<close> is taken to be caught by the caller, who goes on with the next call.
\<close>

datatype call =
    Connect
  | Close
  | Subscribe string opts_arg jsval
  | Publish string jsval jsval
  | RequestOne string jsval jsval jsval
  | Unsubscribe string
  | Timeout string int int jsval
  | Yield nat

fun do_call :: "platform \<Rightarrow> call \<Rightarrow> state \<Rightarrow> state \<times> event list" where
  "do_call P Connect st = (connect st, [])"
| "do_call P Close st = (close st, [])"
| "do_call P (Subscribe subj opts f) st = (snd (subscribe P subj opts f st), [])"
| "do_call P (Publish subj m r) st = snd (publish P subj m r st)"
| "do_call P (RequestOne subj m opts f) st = snd (requestOne P subj m opts f st)"
| "do_call P (Unsubscribe s) st = (unsubscribe s st, [])"
| "do_call P (Timeout s d n f) st = (timeout_m s d n f st, [])"
| "do_call P (Yield d) st = yield d st"

fun run :: "platform \<Rightarrow> call list \<Rightarrow> state \<Rightarrow> state \<times> event list" where
  "run P [] st = (st, [])"
| "run P (c # cs) st =
     (let (st1, tr1) = do_call P c st; (st2, tr2) = run P cs st1 in (st2, tr1 @ tr2))"



subsection \<open>Notions about one timer\<close>

text \<open>
  Besides the pending timers, the handles that the subscriptions hold lie below the next
  handle: every handle was handed out by \<^verbatim>\<open>setTimeout\<close>.
\<close>

definition handles_wf :: "state \<Rightarrow> bool" where
  "handles_wf st =
     (timers_wf st
      \<and> list_all (\<lambda>x. case timeout x of None \<Rightarrow> True | Some h \<Rightarrow> h < next_timer st) (subs st))"









section \<open>Properties\<close>

subsection \<open>An empty registry\<close>

lemma matches_empty: "subs st = [] \<Longrightarrow> matches subj st = []"
  by (simp add: matches_def)

lemma findSubscribes_empty:
  "subs st = [] \<Longrightarrow> findSubscribesBySubject P subj st = ([], st)"
  by (simp add: findSubscribesBySubject_def matches_empty obj_values_def)

lemma publish_empty_registry:
  "subs st = [] \<Longrightarrow>
     publish P subj m r st =
       (case decode_payload P st m of Inl e \<Rightarrow> (Some e, st, []) | Inr d \<Rightarrow> (None, st, []))"
  by (simp add: publish_def findSubscribes_empty split: sum.splits)

lemma subs_close: "subs (close st) = []"
  by (simp add: close_def nextTick_def)

text \<open>
  C7. \<^verbatim>\<open>close()\<close> empties the registry and sets \<open>connected\<close> to false before it
  returns, and only queues the disconnect event; a publish on the closed client selects
  no subscription, leaves the state as \<^verbatim>\<open>close\<close> left it (so \<open>connected\<close> still reads
  false) and performs no step at all: no counter update, no handler call.
\<close>

theorem close_clears_registry:
  "subs (close st) = [] \<and> connected (close st) = Some False
   \<and> ticks (close st) = ticks st @ [Emit_task ''disconnect'']
   \<and> fst (findSubscribesBySubject P subj (close st)) = []
   \<and> fst (snd (publish P subj m r (close st))) = close st
   \<and> snd (snd (publish P subj m r (close st))) = []"
proof -
  have a: "subs (close st) = []" by (rule subs_close)
  have b: "connected (close st) = Some False
           \<and> ticks (close st) = ticks st @ [Emit_task ''disconnect'']"
    by (simp add: close_def nextTick_def)
  have c: "fst (findSubscribesBySubject P subj (close st)) = []"
    by (simp add: findSubscribes_empty [OF a])
  have d: "fst (snd (publish P subj m r (close st))) = close st
           \<and> snd (snd (publish P subj m r (close st))) = []"
    by (simp add: publish_empty_registry [OF a] split: sum.splits)
  from a b c d show ?thesis by simp
qed

text \<open>
  On the example registry a publish to \<^verbatim>\<open>a.b\<close> reaches handlers; after \<^verbatim>\<open>close\<close> the
  same publish reaches none.
\<close>

theorem close_clears_registry_witness:
  "subs (close (grouped_registry default_client)) = []
   \<and> connected (close (grouped_registry default_client)) = Some False
   \<and> snd (snd (publish ascii_node ''a.b'' (JStr ''hello'') JUndefined
                 (close (grouped_registry default_client)))) = []
   \<and> snd (snd (publish ascii_node ''a.b'' (JStr ''hello'') JUndefined
                 (grouped_registry default_client))) \<noteq> []"
proof -
  have "snd (snd (publish ascii_node ''a.b'' (JStr ''hello'') JUndefined
                 (grouped_registry default_client))) \<noteq> []"
    by code_simp
  then show ?thesis
    using close_clears_registry
      [of "grouped_registry default_client" ascii_node "''a.b''" "JStr ''hello''" JUndefined]
    by simp
qed

subsection \<open>Errors of the payload round trip\<close>

text \<open>
  C9. In JSON mode, when encoding, making the Buffer or decoding raises, \<^verbatim>\<open>publish\<close>
  raises that error to its caller, and it does so before anything else happens: the
  state is the one it was called with (no uuid drawn, no counter changed, no timer
  cancelled) and no handler is called.
\<close>

theorem publish_raises_before_delivery:
  assumes "useJson st" and "decode_payload P st m = Inl e"
  shows "publish P subj m r st = (Some e, st, [])"
  using assms by (simp add: publish_def)

text \<open>
  \<^verbatim>\<open>JSON.stringify(undefined)\<close> is \<^verbatim>\<open>undefined\<close>, which \<^verbatim>\<open>Buffer.from\<close> rejects with a
  TypeError.
\<close>

theorem publish_raises_before_delivery_witness:
  "useJson (grouped_registry json_client)
   \<and> decode_payload ascii_node (grouped_registry json_client) JUndefined = Inl TypeError
   \<and> publish ascii_node ''a.b'' JUndefined JUndefined (grouped_registry json_client)
       = (Some TypeError, grouped_registry json_client, [])"
proof -
  have a: "useJson (grouped_registry json_client)" by code_simp
  have b: "decode_payload ascii_node (grouped_registry json_client) JUndefined = Inl TypeError"
    by code_simp
  show ?thesis using a b publish_raises_before_delivery [OF a b] by simp
qed

subsection \<open>requestOne\<close>

text \<open>
  When the message is not a function, \<^verbatim>\<open>requestOne\<close> draws a uuid, publishes the
  message with that uuid as \<open>replyTo\<close> and returns it (or raises what \<^verbatim>\<open>publish\<close>
  raises), whatever \<open>options\<close> and \<open>callback\<close> are.
\<close>

lemma requestOne_publishes:
  "\<not> is_function m \<Longrightarrow>
     requestOne P subj m options callback st =
       (case publish P subj m (JStr (uuid_v4 P (uuid_calls st)))
               (st\<lparr>uuid_calls := Suc (uuid_calls st)\<rparr>) of
          (Some e, st2, evs) \<Rightarrow> (Inl e, st2, evs)
        | (None, st2, evs) \<Rightarrow> (Inr (uuid_v4 P (uuid_calls st)), st2, evs))"
  by (simp add: requestOne_def draw_uuid_def split: prod.splits option.splits)

text \<open>
  C5. The claim has \<^verbatim>\<open>requestOne(subject, callback)\<close> publish an empty payload and
  return the correlation id. The code raises instead: it reads the name \<^verbatim>\<open>EMPTY\<close>,
  which nothing defines, so the call ends in a ReferenceError after the uuid was drawn,
  with nothing published and no id returned.
\<close>

theorem requestOne_function_message:
  "requestOne P subj (JFun f) options callback st
     = (Inl (ReferenceError ''EMPTY''), st\<lparr>uuid_calls := Suc (uuid_calls st)\<rparr>, [])"
  by (simp add: requestOne_def draw_uuid_def)

subsection \<open>The connected flag\<close>

text \<open>
  C6 as stated fails: on a new client the flag reads true as soon as \<^verbatim>\<open>connect\<close> has
  returned, before the caller yields and before any event is emitted.
\<close>

theorem connect_flag_counterexample:
  "connected (connect default_client) = Some True \<and> snd (yield 0 (connect default_client)) = []"
  by code_simp

text \<open>
  C6, amended. The constructor leaves \<open>connected\<close> unset (it reads \<^verbatim>\<open>undefined\<close>, which
  is falsy). \<^verbatim>\<open>connect\<close> sets it to true before it returns and touches nothing else but
  the timer table, where it adds one timer due 10 ms later; only the \<^verbatim>\<open>connect\<close> event
  is asynchronous: it is emitted once the caller has yielded for 10 ms.
\<close>

theorem connect_sets_flag_synchronously:
  "connected (new_client opts rt) = None
   \<and> connected (connect st) = Some True
   \<and> timers (connect st) = timers st @ [(next_timer st, clock st + 10, Emit_task ''connect'')]
   \<and> ticks (connect st) = ticks st
   \<and> subs (connect st) = subs st
   \<and> Emit ''connect'' \<in> set (snd (yield 10 (connect st)))"
proof -
  have "Emit ''connect'' \<in> set (snd (yield 10 (connect st)))"
    by (simp add: yield_def connect_def setTimeout_def timer_delay_def Let_def is_due_def)
  then show ?thesis
    by (simp add: new_client_def connect_def setTimeout_def timer_delay_def)
qed

theorem connect_sets_flag_synchronously_witness:
  "connected (new_client \<lparr>opt_json = None, opt_preserveBuffers = None\<rparr> fresh_runtime) = None
   \<and> connected (connect default_client) = Some True
   \<and> timers (connect default_client) = [(0, 10, Emit_task ''connect'')]
   \<and> snd (yield 10 (connect default_client)) = [Emit ''connect'']"
proof -
  have "timers (connect default_client) = [(0, 10, Emit_task ''connect'')]
        \<and> snd (yield 10 (connect default_client)) = [Emit ''connect'']"
    by code_simp
  then show ?thesis
    using connect_sets_flag_synchronously
      [of "\<lparr>opt_json = None, opt_preserveBuffers = None\<rparr>" fresh_runtime default_client]
    by simp
qed


lemma draw_uuid_connected:
  "draw_uuid P (st\<lparr>connected := b\<rparr>) = (fst (draw_uuid P st), (snd (draw_uuid P st))\<lparr>connected := b\<rparr>)"
  by (simp add: draw_uuid_def)

lemma queue_key_connected:
  "queue_key P s (st\<lparr>connected := b\<rparr>) = (fst (queue_key P s st), (snd (queue_key P s st))\<lparr>connected := b\<rparr>)"
  by (simp add: queue_key_def draw_uuid_connected split: option.splits)

lemma subs_queue_key: "subs (snd (queue_key P s st)) = subs st"
  by (simp add: queue_key_def draw_uuid_def split: option.splits)

lemma fill_connected:
  "onePerQueue_fill P js obj (st\<lparr>connected := b\<rparr>)
     = (fst (onePerQueue_fill P js obj st), (snd (onePerQueue_fill P js obj st))\<lparr>connected := b\<rparr>)"
proof (induction js arbitrary: obj st)
  case Nil
  show ?case by simp
next
  case (Cons j js)
  show ?case
    by (simp add: queue_key_connected Cons.IH split: prod.splits)
qed

lemma matches_connected: "matches subj (st\<lparr>connected := b\<rparr>) = matches subj st"
  by (simp add: matches_def)

lemma findSubscribes_connected:
  "findSubscribesBySubject P subj (st\<lparr>connected := b\<rparr>)
     = (fst (findSubscribesBySubject P subj st), (snd (findSubscribesBySubject P subj st))\<lparr>connected := b\<rparr>)"
  by (simp add: findSubscribesBySubject_def matches_connected fill_connected split: prod.splits)

lemma decode_connected: "decode_payload P (st\<lparr>connected := b\<rparr>) m = decode_payload P st m"
  by (simp add: decode_payload_def split: sum.splits)

lemma count_one_connected:
  "count_one i (st\<lparr>connected := b\<rparr>) = (fst (count_one i st)\<lparr>connected := b\<rparr>, snd (count_one i st))"
  by (simp add: count_one_def clearTimeout_def Let_def split: option.splits)

lemma deliver_connected:
  "deliver P d r subj js (st\<lparr>connected := b\<rparr>)
     = (case deliver P d r subj js st of (e, st', evs) \<Rightarrow> (e, st'\<lparr>connected := b\<rparr>, evs))"
proof (induction js arbitrary: st)
  case Nil
  show ?case by simp
next
  case (Cons j js)
  show ?case
    by (simp add: count_one_connected Cons.IH split: prod.splits option.splits)
qed

lemma publish_connected:
  "publish P subj m r (st\<lparr>connected := b\<rparr>)
     = (case publish P subj m r st of (e, st', evs) \<Rightarrow> (e, st'\<lparr>connected := b\<rparr>, evs))"
  by (simp add: publish_def decode_connected findSubscribes_connected deliver_connected
           split: sum.splits prod.splits)

lemma subscribe_connected:
  "subscribe P subj opts f (st\<lparr>connected := b\<rparr>)
     = (fst (subscribe P subj opts f st), (snd (subscribe P subj opts f st))\<lparr>connected := b\<rparr>)"
  by (simp add: subscribe_def draw_uuid_def split: opts_arg.splits)

lemma find_sid_connected: "findSubscribeBySid s (st\<lparr>connected := b\<rparr>) = findSubscribeBySid s st"
  by (simp add: findSubscribeBySid_def)

lemma unsubscribe_connected:
  "unsubscribe s (st\<lparr>connected := b\<rparr>) = (unsubscribe s st)\<lparr>connected := b\<rparr>"
  by (simp add: unsubscribe_def find_sid_connected split: option.splits)

lemma timeout_connected:
  "timeout_m s d n f (st\<lparr>connected := b\<rparr>) = (timeout_m s d n f st)\<lparr>connected := b\<rparr>"
  by (simp add: timeout_m_def find_sid_connected setTimeout_def Let_def split: option.splits)

text \<open>
  C10. Running \<^verbatim>\<open>subscribe\<close>, \<^verbatim>\<open>publish\<close>, \<^verbatim>\<open>unsubscribe\<close> or \<^verbatim>\<open>timeout\<close> on a state
  whose \<open>connected\<close> field was overwritten with any value \<open>b\<close> gives the same
  result, the same trace of counter updates and handler calls and the same new state as
  running it on the original state, except that \<open>connected\<close> is \<open>b\<close> in the new state:
  no operation reads the flag, and none writes it.
\<close>

theorem connected_never_consulted:
  "subscribe P subj opts f (st\<lparr>connected := b\<rparr>)
     = (fst (subscribe P subj opts f st), (snd (subscribe P subj opts f st))\<lparr>connected := b\<rparr>)
   \<and> publish P subj m r (st\<lparr>connected := b\<rparr>)
     = (fst (publish P subj m r st), (fst (snd (publish P subj m r st)))\<lparr>connected := b\<rparr>,
        snd (snd (publish P subj m r st)))
   \<and> unsubscribe s (st\<lparr>connected := b\<rparr>) = (unsubscribe s st)\<lparr>connected := b\<rparr>
   \<and> timeout_m s d n g (st\<lparr>connected := b\<rparr>) = (timeout_m s d n g st)\<lparr>connected := b\<rparr>"
proof -
  have "publish P subj m r (st\<lparr>connected := b\<rparr>)
     = (fst (publish P subj m r st), (fst (snd (publish P subj m r st)))\<lparr>connected := b\<rparr>,
        snd (snd (publish P subj m r st)))"
    by (simp add: publish_connected split: prod.splits)
  then show ?thesis
    by (simp only: subscribe_connected unsubscribe_connected timeout_connected simp_thms)
qed

text \<open>
  The same publish before and after \<^verbatim>\<open>connect\<close> calls the same handlers with the same
  arguments, and leaves the same registry.
\<close>

theorem connected_never_consulted_witness:
  "snd (snd (publish ascii_node ''a.b'' (JStr ''hello'') JUndefined (connect (grouped_registry default_client))))
     = snd (snd (publish ascii_node ''a.b'' (JStr ''hello'') JUndefined (grouped_registry default_client)))
   \<and> snd (snd (publish ascii_node ''a.b'' (JStr ''hello'') JUndefined (grouped_registry default_client))) \<noteq> []
   \<and> subs (fst (snd (publish ascii_node ''a.b'' (JStr ''hello'') JUndefined ((grouped_registry default_client)\<lparr>connected := Some True\<rparr>))))
     = subs (fst (snd (publish ascii_node ''a.b'' (JStr ''hello'') JUndefined (grouped_registry default_client))))"
proof -
  have a: "snd (snd (publish ascii_node ''a.b'' (JStr ''hello'') JUndefined (grouped_registry default_client))) \<noteq> []"
    by code_simp
  have b: "snd (snd (publish ascii_node ''a.b'' (JStr ''hello'') JUndefined (connect (grouped_registry default_client))))
     = snd (snd (publish ascii_node ''a.b'' (JStr ''hello'') JUndefined (grouped_registry default_client)))"
    by code_simp
  show ?thesis
    using a b connected_never_consulted [where P = ascii_node and subj = "''a.b''" and opts = Opts_none
        and f = JUndefined and st = "grouped_registry default_client" and b = "Some True"
        and m = "JStr ''hello''" and r = JUndefined and s = "''x''" and d = 0 and n = 0
        and g = JUndefined]
    by simp
qed

subsection \<open>Subject matching\<close>

lemma segment_ok_gt: "\<not> segment_ok s ''>''"
  by (simp add: segment_ok_def)

lemma spec_match_Nil: "spec_match [] []"
  by (simp add: spec_match_def)

lemma spec_match_Nil1: "\<not> spec_match [] (p # ps)"
  by (simp add: spec_match_def)

lemma spec_match_Nil2: "\<not> spec_match (s # ss) []"
  by (simp add: spec_match_def)

lemma spec_match_last: "spec_match (s # ss) [''>'']"
  by (simp add: spec_match_def)

lemma spec_match_gt_more: "ps \<noteq> [] \<Longrightarrow> \<not> spec_match (s # ss) (''>'' # ps)"
  by (cases ps) (auto simp: spec_match_def All_less_Suc2 segment_ok_def)

lemma spec_match_Cons:
  assumes "p \<noteq> ''>''"
  shows "spec_match (s # ss) (p # ps) = (segment_ok s p \<and> spec_match ss ps)"
proof (cases ps)
  case Nil
  with assms show ?thesis
    by (auto simp: spec_match_def)
next
  case (Cons q qs)
  then show ?thesis
    by (auto simp: spec_match_def All_less_Suc2)
qed

lemma match_tokens_spec: "match_tokens ss ps = spec_match ss ps"
proof (induction ss ps rule: match_tokens.induct)
  case (2 s ss p ps)
  show ?case
  proof (cases "p = ''>''")
    case True
    then show ?thesis
      using spec_match_last [of s ss] spec_match_gt_more [of ps s ss] by auto
  next
    case False
    then show ?thesis
      using "2.IH" by (simp add: spec_match_Cons segment_ok_def)
  qed
qed (simp_all add: spec_match_Nil spec_match_Nil1 spec_match_Nil2)

text \<open>
  C2. \<open>matchSubject\<close> holds exactly when the two segment lists satisfy the rules of the
  spec: a \<^verbatim>\<open>*\<close> stands for one segment, a \<^verbatim>\<open>>\<close> is the last pattern segment and stands
  for one or more trailing segments, the other segments are equal position by position,
  and the counts agree but for a trailing \<^verbatim>\<open>>\<close>. The examples of the spec come out as it
  says.
\<close>

theorem matchSubject_rules:
  "matchSubject subj pattern = spec_match (split_on CHR ''.'' subj) (split_on CHR ''.'' pattern)
   \<and> matchSubject ''a.b'' ''a.>'' \<and> matchSubject ''a.b.c'' ''a.>'' \<and> \<not> matchSubject ''a'' ''a.>''
   \<and> matchSubject ''a.b.c'' ''a.*.c'' \<and> \<not> matchSubject ''a.b.d.c'' ''a.*.c''
   \<and> \<not> matchSubject ''a.c'' ''a.*.c''"
proof -
  have "matchSubject ''a.b'' ''a.>'' \<and> matchSubject ''a.b.c'' ''a.>'' \<and> \<not> matchSubject ''a'' ''a.>''
   \<and> matchSubject ''a.b.c'' ''a.*.c'' \<and> \<not> matchSubject ''a.b.d.c'' ''a.*.c''
   \<and> \<not> matchSubject ''a.c'' ''a.*.c''"
    by code_simp
  then show ?thesis
    by (simp add: matchSubject_def match_tokens_spec)
qed

theorem matchSubject_rules_witness:
  "matchSubject ''orders.eu.created'' ''orders.*.created''
   \<and> spec_match [''orders'', ''eu'', ''created''] [''orders'', ''*'', ''created'']
   \<and> \<not> matchSubject ''orders'' ''orders.>''
   \<and> \<not> spec_match [''orders''] [''orders'', ''>'']"
proof -
  have a: "matchSubject ''orders.eu.created'' ''orders.*.created'' \<and> \<not> matchSubject ''orders'' ''orders.>''"
    by code_simp
  have b: "split_on CHR ''.'' ''orders.eu.created'' = [''orders'', ''eu'', ''created'']
           \<and> split_on CHR ''.'' ''orders.*.created'' = [''orders'', ''*'', ''created'']
           \<and> split_on CHR ''.'' ''orders'' = [''orders'']
           \<and> split_on CHR ''.'' ''orders.>'' = [''orders'', ''>'']"
    by code_simp
  show ?thesis
    using a b matchSubject_rules [of "''orders.eu.created''" "''orders.*.created''"]
      matchSubject_rules [of "''orders''" "''orders.>''"]
    by simp
qed

subsection \<open>The payload round trip\<close>

lemma call_args_append: "call_args (xs @ ys) = call_args xs @ call_args ys"
  by (induction xs rule: call_args.induct) simp_all

lemma call_args_count_one: "call_args (snd (count_one i st)) = []"
  by (simp add: count_one_def Let_def split: option.splits)

lemma call_args_call_fn: "set (call_args (snd (call_fn P f args))) \<subseteq> {args}"
  by (cases f) simp_all

lemma deliver_call_args:
  "set (call_args (snd (snd (deliver P d r subj js st)))) \<subseteq> {[d, r, JStr subj]}"
proof (induction js arbitrary: st)
  case Nil
  show ?case by simp
next
  case (Cons j js)
  obtain st1 evs where c: "count_one j st = (st1, evs)" by (cases "count_one j st")
  obtain thrown called where f: "call_fn P (cb (subs st1 ! j)) [d, r, JStr subj] = (thrown, called)"
    by (cases "call_fn P (cb (subs st1 ! j)) [d, r, JStr subj]")
  have e: "call_args evs = []" using call_args_count_one [of j st] c by simp
  have g: "set (call_args called) \<subseteq> {[d, r, JStr subj]}"
    using call_args_call_fn [of P "cb (subs st1 ! j)" "[d, r, JStr subj]"] f by simp
  show ?case
  proof (cases thrown)
    case (Some err)
    then show ?thesis using c f e g by (simp add: call_args_append)
  next
    case None
    obtain r2 st2 evs2 where d2: "deliver P d r subj js st1 = (r2, st2, evs2)"
      by (cases "deliver P d r subj js st1")
    have "set (call_args evs2) \<subseteq> {[d, r, JStr subj]}" using Cons.IH [of st1] d2 by simp
    then show ?thesis using None c f e g d2 by (simp add: call_args_append)
  qed
qed

lemma decode_json_round_trip:
  "useJson st \<Longrightarrow> json_round_trip P m \<Longrightarrow> decode_payload P st m = Inr m"
  by (auto simp: decode_payload_def json_round_trip_def split: sum.splits jsval.splits)

lemma decode_text_round_trip:
  "\<not> useJson st \<Longrightarrow> \<not> preserveBuffers st \<Longrightarrow> text_round_trip P s
     \<Longrightarrow> decode_payload P st (JStr s) = Inr (JStr s)"
  by (auto simp: decode_payload_def text_round_trip_def split: sum.splits)

lemma publish_decoded:
  "decode_payload P st m = Inr d \<Longrightarrow>
     publish P subj m r st
       = deliver P d r subj (fst (findSubscribesBySubject P subj st))
           (snd (findSubscribesBySubject P subj st))"
  by (simp add: publish_def split: prod.splits)

text \<open>
  C8. In JSON mode, when the platform's JSON and Buffer codecs give the message back,
  \<^verbatim>\<open>publish\<close> runs the delivery loop over the selected subscriptions with the message
  itself as payload, and every handler call it makes has the arguments (message,
  replyTo, subject). With the default configuration (no JSON, Buffers not preserved) the
  same holds for a string whose Buffer reads back as that string.
\<close>

theorem payload_round_trip:
  "(useJson st \<and> json_round_trip P m \<longrightarrow>
      publish P subj m r st
        = deliver P m r subj (fst (findSubscribesBySubject P subj st))
            (snd (findSubscribesBySubject P subj st))
      \<and> set (call_args (snd (snd (publish P subj m r st)))) \<subseteq> {[m, r, JStr subj]})
   \<and> (\<not> useJson st \<and> \<not> preserveBuffers st \<and> text_round_trip P s \<longrightarrow>
      publish P subj (JStr s) r st
        = deliver P (JStr s) r subj (fst (findSubscribesBySubject P subj st))
            (snd (findSubscribesBySubject P subj st))
      \<and> set (call_args (snd (snd (publish P subj (JStr s) r st)))) \<subseteq> {[JStr s, r, JStr subj]})"
proof (intro conjI impI)
  assume a: "useJson st \<and> json_round_trip P m"
  then have d: "decode_payload P st m = Inr m" by (simp add: decode_json_round_trip)
  show p: "publish P subj m r st
        = deliver P m r subj (fst (findSubscribesBySubject P subj st))
            (snd (findSubscribesBySubject P subj st))"
    by (rule publish_decoded [OF d])
  show "set (call_args (snd (snd (publish P subj m r st)))) \<subseteq> {[m, r, JStr subj]}"
    unfolding p by (rule deliver_call_args)
next
  assume a: "\<not> useJson st \<and> \<not> preserveBuffers st \<and> text_round_trip P s"
  then have d: "decode_payload P st (JStr s) = Inr (JStr s)" by (simp add: decode_text_round_trip)
  show p: "publish P subj (JStr s) r st
        = deliver P (JStr s) r subj (fst (findSubscribesBySubject P subj st))
            (snd (findSubscribesBySubject P subj st))"
    by (rule publish_decoded [OF d])
  show "set (call_args (snd (snd (publish P subj (JStr s) r st)))) \<subseteq> {[JStr s, r, JStr subj]}"
    unfolding p by (rule deliver_call_args)
qed

text \<open>
  On Node's codecs the object \<^verbatim>\<open>{x: 1}\<close> and the string \<^verbatim>\<open>hello\<close> round-trip, and both
  handlers selected on the example registry receive them.
\<close>

theorem payload_round_trip_witness:
  "useJson (grouped_registry json_client)
   \<and> json_round_trip ascii_node (JObj [(''x'', JNum 1)])
   \<and> call_args (snd (snd (publish ascii_node ''a.b'' (JObj [(''x'', JNum 1)]) JUndefined
                            (grouped_registry json_client))))
       = [[JObj [(''x'', JNum 1)], JUndefined, JStr ''a.b''],
          [JObj [(''x'', JNum 1)], JUndefined, JStr ''a.b'']]
   \<and> \<not> useJson (grouped_registry default_client)
   \<and> \<not> preserveBuffers (grouped_registry default_client)
   \<and> text_round_trip ascii_node ''hello''
   \<and> call_args (snd (snd (publish ascii_node ''a.b'' (JStr ''hello'') JUndefined
                            (grouped_registry default_client))))
       = [[JStr ''hello'', JUndefined, JStr ''a.b''], [JStr ''hello'', JUndefined, JStr ''a.b'']]
   \<and> set (call_args (snd (snd (publish ascii_node ''a.b'' (JStr ''hello'') JUndefined
                            (grouped_registry default_client)))))
       \<subseteq> {[JStr ''hello'', JUndefined, JStr ''a.b'']}"
proof -
  have a: "useJson (grouped_registry json_client) \<and> json_round_trip ascii_node (JObj [(''x'', JNum 1)])"
    by code_simp
  have b: "\<not> useJson (grouped_registry default_client) \<and> \<not> preserveBuffers (grouped_registry default_client)
           \<and> text_round_trip ascii_node ''hello''"
    by code_simp
  have c: "call_args (snd (snd (publish ascii_node ''a.b'' (JObj [(''x'', JNum 1)]) JUndefined
                            (grouped_registry json_client))))
       = [[JObj [(''x'', JNum 1)], JUndefined, JStr ''a.b''],
          [JObj [(''x'', JNum 1)], JUndefined, JStr ''a.b'']]"
    by code_simp
  have d: "call_args (snd (snd (publish ascii_node ''a.b'' (JStr ''hello'') JUndefined
                            (grouped_registry default_client))))
       = [[JStr ''hello'', JUndefined, JStr ''a.b''], [JStr ''hello'', JUndefined, JStr ''a.b'']]"
    by code_simp
  from b payload_round_trip [of "grouped_registry default_client" ascii_node _ "''a.b''" JUndefined "''hello''"]
  have e: "set (call_args (snd (snd (publish ascii_node ''a.b'' (JStr ''hello'') JUndefined
                            (grouped_registry default_client)))))
       \<subseteq> {[JStr ''hello'', JUndefined, JStr ''a.b'']}"
    by blast
  from a b c d e show ?thesis by blast
qed

subsection \<open>Selection and delivery\<close>



lemma obj_set_keys:
  "fst ` set (obj_set k v obj) \<subseteq> insert k (fst ` set obj)"
  by (auto simp: obj_set_def)

lemma map_fst_replace:
  "map fst (map (\<lambda>p. if fst p = k then (k, v) else p) obj) = map fst obj"
  by (induction obj) auto

lemma obj_set_distinct_keys:
  assumes "distinct (map fst obj)"
  shows "distinct (map fst (obj_set k v obj))"
proof -
  have r: "map fst (map (\<lambda>p. if fst p = k then (k, v) else p) obj) = map fst obj"
    by (rule map_fst_replace)
  show ?thesis
    unfolding obj_set_def using assms r by (simp del: map_map)
qed

lemma obj_set_values:
  "snd ` set (obj_set k v obj) \<subseteq> insert v (snd ` set obj)"
  by (auto simp: obj_set_def)

lemma replace_distinct_values:
  "distinct (map snd obj) \<Longrightarrow> v \<notin> snd ` set obj \<Longrightarrow> distinct (map fst obj)
     \<Longrightarrow> distinct (map snd (map (\<lambda>p. if fst p = k then (k, v) else p) obj))"
proof (induction obj)
  case Nil
  show ?case by simp
next
  case (Cons p obj)
  show ?case
  proof (cases "fst p = k")
    case True
    with Cons.prems have "k \<notin> fst ` set obj" by auto
    then have "map (\<lambda>p. if fst p = k then (k, v) else p) obj = obj"
      by (induction obj) auto
    with True Cons.prems show ?thesis by auto
  next
    case False
    with Cons show ?thesis by (auto simp: image_iff split: if_splits)
  qed
qed

lemma obj_set_distinct_values:
  "distinct (map fst obj) \<Longrightarrow> distinct (map snd obj) \<Longrightarrow> v \<notin> snd ` set obj
     \<Longrightarrow> distinct (map snd (obj_set k v obj))"
  using replace_distinct_values [of obj v k]
  by (auto simp: obj_set_def simp del: map_map)

lemma set_obj_values: "set (obj_values obj) = snd ` set obj"
  by (auto simp: obj_values_def)

lemma distinct_obj_values: "distinct (map snd obj) \<Longrightarrow> distinct (obj_values obj)"
  by (auto simp: obj_values_def distinct_map inj_on_def)

lemma fill_invariant:
  "distinct (map fst obj) \<Longrightarrow> distinct (map snd obj) \<Longrightarrow> distinct js
     \<Longrightarrow> set js \<inter> snd ` set obj = {}
     \<Longrightarrow> distinct (map fst (fst (onePerQueue_fill P js obj st)))
         \<and> distinct (map snd (fst (onePerQueue_fill P js obj st)))
         \<and> snd ` set (fst (onePerQueue_fill P js obj st)) \<subseteq> snd ` set obj \<union> set js
         \<and> subs (snd (onePerQueue_fill P js obj st)) = subs st"
proof (induction js arbitrary: obj st)
  case Nil
  then show ?case by simp
next
  case (Cons j js)
  obtain k st1 where q: "queue_key P (subs st ! j) st = (k, st1)"
    by (cases "queue_key P (subs st ! j) st")
  have s1: "subs st1 = subs st" using subs_queue_key [of P "subs st ! j" st] q by simp
  let ?obj = "obj_set k j obj"
  have j: "j \<notin> snd ` set obj" using Cons.prems(4) by auto
  have a: "distinct (map fst ?obj)" using Cons.prems(1) by (rule obj_set_distinct_keys)
  have b: "distinct (map snd ?obj)" using Cons.prems(1,2) j by (rule obj_set_distinct_values)
  have c: "distinct js" using Cons.prems(3) by simp
  have v: "snd ` set ?obj \<subseteq> insert j (snd ` set obj)" by (rule obj_set_values)
  have d: "set js \<inter> snd ` set ?obj = {}" using Cons.prems(3,4) v by auto
  have e: "onePerQueue_fill P (j # js) obj st = onePerQueue_fill P js ?obj st1"
    using q by simp
  from Cons.IH [OF a b c d, of st1]
  have i1: "distinct (map fst (fst (onePerQueue_fill P js ?obj st1)))"
    and i2: "distinct (map snd (fst (onePerQueue_fill P js ?obj st1)))"
    and i3: "snd ` set (fst (onePerQueue_fill P js ?obj st1)) \<subseteq> snd ` set ?obj \<union> set js"
    and i4: "subs (snd (onePerQueue_fill P js ?obj st1)) = subs st1"
    by simp_all
  from i3 v have i5: "snd ` set (fst (onePerQueue_fill P js ?obj st1)) \<subseteq> snd ` set obj \<union> set (j # js)"
    by auto
  from i1 i2 i5 i4 s1 show ?case unfolding e by simp
qed

lemma matches_props: "distinct (matches subj st) \<and> (\<forall>i \<in> set (matches subj st). i < length (subs st))"
  by (simp add: matches_def)

lemma findSubscribes_props:
  "distinct (fst (findSubscribesBySubject P subj st))
   \<and> set (fst (findSubscribesBySubject P subj st)) \<subseteq> set (matches subj st)
   \<and> subs (snd (findSubscribesBySubject P subj st)) = subs st"
proof -
  have "distinct (map fst ([] :: (string \<times> nat) list))" "distinct (map snd ([] :: (string \<times> nat) list))"
    "distinct (matches subj st)" "set (matches subj st) \<inter> snd ` set ([] :: (string \<times> nat) list) = {}"
    by (simp_all add: matches_props)
  from fill_invariant [OF this, of P st] show ?thesis
    by (simp add: findSubscribesBySubject_def split_beta set_obj_values distinct_obj_values)
qed

lemma count_one_subs:
  "i < length (subs st) \<Longrightarrow>
     length (subs (fst (count_one i st))) = length (subs st)
     \<and> (\<forall>j. j \<noteq> i \<longrightarrow> subs (fst (count_one i st)) ! j = subs st ! j)
     \<and> received (subs (fst (count_one i st)) ! i) = Suc (received (subs st ! i))
     \<and> cb (subs (fst (count_one i st)) ! i) = cb (subs st ! i)"
  by (simp add: count_one_def clearTimeout_def Let_def split: option.splits)

lemma count_one_events:
  "snd (count_one i st) @ snd (call_fn P (cb (subs st ! i)) [d, r, JStr subj])
     = visit_events P st d r subj i"
  by (simp add: count_one_def visit_events_def Let_def split: option.splits)

lemma visit_events_cong:
  "subs st' ! i = subs st ! i \<Longrightarrow> visit_events P st' d r subj i = visit_events P st d r subj i"
  by (simp add: visit_events_def)

lemma deliver_trace:
  "distinct js \<Longrightarrow> \<forall>j \<in> set js. j < length (subs st)
     \<Longrightarrow> fst (deliver P d r subj js st) = None
     \<Longrightarrow> snd (snd (deliver P d r subj js st)) = concat (map (visit_events P st d r subj) js)
         \<and> length (subs (fst (snd (deliver P d r subj js st)))) = length (subs st)
         \<and> (\<forall>i. received (subs (fst (snd (deliver P d r subj js st))) ! i)
                  = (if i \<in> set js then Suc (received (subs st ! i)) else received (subs st ! i)))"
proof (induction js arbitrary: st)
  case Nil
  show ?case by simp
next
  case (Cons j js)
  let ?st1 = "fst (count_one j st)"
  have jl: "j < length (subs st)" using Cons.prems(2) by simp
  note c1 = count_one_subs [OF jl]
  obtain thrown called where f: "call_fn P (cb (subs st ! j)) [d, r, JStr subj] = (thrown, called)"
    by (cases "call_fn P (cb (subs st ! j)) [d, r, JStr subj]")
  have ev: "snd (count_one j st) @ called = visit_events P st d r subj j"
    using count_one_events [of j st P d r subj] f by simp
  have thrown: "thrown = None"
    using Cons.prems(3) f c1 by (cases thrown) (simp_all add: split_beta)
  have unfold: "deliver P d r subj (j # js) st
      = (fst (deliver P d r subj js ?st1), fst (snd (deliver P d r subj js ?st1)),
         snd (count_one j st) @ called @ snd (snd (deliver P d r subj js ?st1)))"
    using f c1 thrown by (simp add: split_beta)
  have dj: "distinct js" and nj: "j \<notin> set js" using Cons.prems(1) by simp_all
  have rng: "\<forall>i \<in> set js. i < length (subs ?st1)" using Cons.prems(2) c1 by simp
  have ret: "fst (deliver P d r subj js ?st1) = None" using Cons.prems(3) unfold by simp
  note ih = Cons.IH [OF dj rng ret]
  have same: "\<forall>i \<in> set js. visit_events P ?st1 d r subj i = visit_events P st d r subj i"
    using c1 nj by (auto intro!: visit_events_cong)
  then have m: "map (visit_events P ?st1 d r subj) js = map (visit_events P st d r subj) js"
    by simp
  have tr: "snd (snd (deliver P d r subj (j # js) st)) = concat (map (visit_events P st d r subj) (j # js))"
    using unfold ih m ev by simp
  have len: "length (subs (fst (snd (deliver P d r subj (j # js) st)))) = length (subs st)"
    using unfold ih c1 by simp
  have rec: "\<forall>i. received (subs (fst (snd (deliver P d r subj (j # js) st))) ! i)
                  = (if i \<in> set (j # js) then Suc (received (subs st ! i)) else received (subs st ! i))"
    using unfold ih c1 nj by auto
  from tr len rec show ?case by blast
qed


lemma obj_set_fresh:
  "k \<noteq> ''__proto__'' \<Longrightarrow> k \<notin> fst ` set obj \<Longrightarrow> obj_set k v obj = obj @ [(k, v)]"
  by (simp add: obj_set_def)

lemma queue_key_ungrouped:
  "ungrouped s \<Longrightarrow> queue_key P s st = (uuid_v4 P (uuid_calls st), st\<lparr>uuid_calls := Suc (uuid_calls st)\<rparr>)"
  by (auto simp: ungrouped_def queue_key_def draw_uuid_def split: option.splits)

lemma fill_ungrouped:
  "\<forall>j \<in> set js. ungrouped (subs st ! j)
     \<Longrightarrow> distinct (map (uuid_v4 P) [uuid_calls st ..< uuid_calls st + length js])
     \<Longrightarrow> \<forall>n \<in> {uuid_calls st ..< uuid_calls st + length js}.
           uuid_v4 P n \<noteq> ''__proto__'' \<and> uuid_v4 P n \<notin> fst ` set obj
     \<Longrightarrow> fst (onePerQueue_fill P js obj st)
           = obj @ zip (map (uuid_v4 P) [uuid_calls st ..< uuid_calls st + length js]) js"
proof (induction js arbitrary: obj st)
  case Nil
  show ?case by simp
next
  case (Cons j js)
  let ?c = "uuid_calls st"
  let ?k = "uuid_v4 P ?c"
  let ?st1 = "st\<lparr>uuid_calls := Suc ?c\<rparr>"
  have q: "queue_key P (subs st ! j) st = (?k, ?st1)"
    using Cons.prems(1) by (simp add: queue_key_ungrouped)
  have up: "[?c ..< ?c + length (j # js)] = ?c # [Suc ?c ..< Suc ?c + length js]"
    by (simp add: upt_conv_Cons del: upt_Suc)
  have k: "?k \<noteq> ''__proto__'' \<and> ?k \<notin> fst ` set obj"
    using Cons.prems(3) by simp
  then have o: "obj_set ?k j obj = obj @ [(?k, j)]" by (simp add: obj_set_fresh)
  have a: "\<forall>i \<in> set js. ungrouped (subs ?st1 ! i)" using Cons.prems(1) by simp
  have u1: "uuid_calls ?st1 = Suc ?c" by simp
  have d0: "distinct (map (uuid_v4 P) (?c # [Suc ?c ..< Suc ?c + length js]))"
    using Cons.prems(2) unfolding up .
  then have dd: "?k \<notin> set (map (uuid_v4 P) [Suc ?c ..< Suc ?c + length js])
                 \<and> distinct (map (uuid_v4 P) [Suc ?c ..< Suc ?c + length js])"
    unfolding list.map distinct.simps .
  then have nk': "?k \<notin> set (map (uuid_v4 P) [Suc ?c ..< Suc ?c + length js])"
    and b': "distinct (map (uuid_v4 P) [Suc ?c ..< Suc ?c + length js])"
    by blast+
  have nk: "uuid_v4 P n \<noteq> ?k" if "n \<in> {Suc ?c ..< Suc ?c + length js}" for n
  proof -
    from that have "n \<in> set [Suc ?c ..< Suc ?c + length js]" by (simp only: set_upt)
    then have "uuid_v4 P n \<in> set (map (uuid_v4 P) [Suc ?c ..< Suc ?c + length js])"
      by (simp only: set_map) (rule imageI)
    with nk' show ?thesis by metis
  qed
  have sub: "{Suc ?c ..< Suc ?c + length js} \<subseteq> {?c ..< ?c + length (j # js)}" by auto
  have b: "distinct (map (uuid_v4 P) [uuid_calls ?st1 ..< uuid_calls ?st1 + length js])"
    unfolding u1 by (rule b')
  have c: "\<forall>n \<in> {uuid_calls ?st1 ..< uuid_calls ?st1 + length js}.
             uuid_v4 P n \<noteq> ''__proto__'' \<and> uuid_v4 P n \<notin> fst ` set (obj @ [(?k, j)])"
    unfolding u1
  proof
    fix n assume n: "n \<in> {Suc ?c ..< Suc ?c + length js}"
    with sub have "n \<in> {?c ..< ?c + length (j # js)}" by blast
    with Cons.prems(3) have "uuid_v4 P n \<noteq> ''__proto__'' \<and> uuid_v4 P n \<notin> fst ` set obj" by blast
    with nk [OF n] show "uuid_v4 P n \<noteq> ''__proto__'' \<and> uuid_v4 P n \<notin> fst ` set (obj @ [(?k, j)])"
      by auto
  qed
  have ih: "fst (onePerQueue_fill P js (obj @ [(?k, j)]) ?st1)
              = (obj @ [(?k, j)]) @ zip (map (uuid_v4 P) [Suc ?c ..< Suc ?c + length js]) js"
    using Cons.IH [OF a b c] unfolding u1 .
  have "fst (onePerQueue_fill P (j # js) obj st) = fst (onePerQueue_fill P js (obj @ [(?k, j)]) ?st1)"
    using q o by simp
  also have "\<dots> = (obj @ [(?k, j)]) @ zip (map (uuid_v4 P) [Suc ?c ..< Suc ?c + length js]) js"
    by (rule ih)
  also have "\<dots> = obj @ zip (map (uuid_v4 P) (?c # [Suc ?c ..< Suc ?c + length js])) (j # js)"
    by (simp only: list.map zip_Cons_Cons append_assoc append_Cons append_Nil)
  finally show ?case unfolding up .
qed

lemma obj_values_plain:
  "list_all plain_key (map fst obj) \<Longrightarrow> obj_values obj = map snd obj"
proof -
  assume "list_all plain_key (map fst obj)"
  then have a: "\<forall>p \<in> set obj. \<not> is_array_index (fst p)"
    by (auto simp: list_all_iff plain_key_def)
  then have "filter (\<lambda>p. is_array_index (fst p)) obj = []"
    and "filter (\<lambda>p. \<not> is_array_index (fst p)) obj = obj"
    by (simp_all add: filter_empty_conv filter_id_conv)
  then show ?thesis by (simp add: obj_values_def)
qed

lemma findSubscribes_ungrouped:
  assumes u: "list_all (\<lambda>i. ungrouped (subs st ! i)) (matches subj st)"
    and f: "fresh_uuids P (uuid_calls st) (length (matches subj st))"
  shows "fst (findSubscribesBySubject P subj st) = matches subj st"
proof -
  let ?ms = "matches subj st"
  let ?ks = "map (uuid_v4 P) [uuid_calls st ..< uuid_calls st + length ?ms]"
  have a: "\<forall>j \<in> set ?ms. ungrouped (subs st ! j)" using u by (simp add: list_all_iff)
  have b: "distinct ?ks" using f by (simp add: fresh_uuids_def)
  have p: "list_all plain_key ?ks" using f by (simp add: fresh_uuids_def)
  have c: "\<forall>n \<in> {uuid_calls st ..< uuid_calls st + length ?ms}.
             uuid_v4 P n \<noteq> ''__proto__'' \<and> uuid_v4 P n \<notin> fst ` set ([] :: (string \<times> nat) list)"
    using p by (auto simp: list_all_iff plain_key_def)
  have "fst (onePerQueue_fill P ?ms [] st) = zip ?ks ?ms"
    using fill_ungrouped [OF a b c] by simp
  moreover have "obj_values (zip ?ks ?ms) = map snd (zip ?ks ?ms)"
    using p by (intro obj_values_plain) simp
  ultimately show ?thesis
    by (simp add: findSubscribesBySubject_def split_beta)
qed

text \<open>
  C3, amended. When \<^verbatim>\<open>publish\<close> returns normally, its trace is the concatenation, over the
  subscriptions that \<^verbatim>\<open>_findSubscribesBySubject\<close> returned and in the order of that array,
  of: the count raised by one, the cancellation if it is due, the call of the handler
  with (decoded payload, replyTo, subject), each read off the state before the call; the
  counts of exactly the selected subscriptions are one higher afterwards; and when no
  matching subscription has a queue group (and the uuids drawn are new), that array is
  the matching subscriptions in registry order.
\<close>

theorem publish_visits_selection_in_order:
  assumes dec: "decode_payload P st m = Inr d"
    and ret: "fst (publish P subj m r st) = None"
  shows "snd (snd (publish P subj m r st))
           = concat (map (visit_events P st d r subj) (fst (findSubscribesBySubject P subj st)))
         \<and> (\<forall>i. received (subs (fst (snd (publish P subj m r st))) ! i)
                  = (if i \<in> set (fst (findSubscribesBySubject P subj st))
                     then Suc (received (subs st ! i)) else received (subs st ! i)))
         \<and> (list_all (\<lambda>i. ungrouped (subs st ! i)) (matches subj st)
              \<and> fresh_uuids P (uuid_calls st) (length (matches subj st))
            \<longrightarrow> fst (findSubscribesBySubject P subj st) = matches subj st)"
proof -
  let ?sel = "fst (findSubscribesBySubject P subj st)"
  let ?st1 = "snd (findSubscribesBySubject P subj st)"
  note fp = findSubscribes_props [of P subj st]
  have p: "publish P subj m r st = deliver P d r subj ?sel ?st1"
    by (rule publish_decoded [OF dec])
  have dist: "distinct ?sel" using fp by simp
  have rng: "\<forall>j \<in> set ?sel. j < length (subs ?st1)"
    using fp matches_props [of subj st] by auto
  have r1: "fst (deliver P d r subj ?sel ?st1) = None" using ret p by simp
  note dt = deliver_trace [OF dist rng r1]
  have same: "map (visit_events P ?st1 d r subj) ?sel = map (visit_events P st d r subj) ?sel"
    using fp by (simp add: visit_events_def)
  have a: "snd (snd (publish P subj m r st)) = concat (map (visit_events P st d r subj) ?sel)"
    using dt same p by simp
  have b: "\<forall>i. received (subs (fst (snd (publish P subj m r st))) ! i)
                  = (if i \<in> set ?sel then Suc (received (subs st ! i)) else received (subs st ! i))"
    using dt fp p by simp
  have c: "list_all (\<lambda>i. ungrouped (subs st ! i)) (matches subj st)
              \<and> fresh_uuids P (uuid_calls st) (length (matches subj st))
            \<longrightarrow> ?sel = matches subj st"
    using findSubscribes_ungrouped [of st subj P] by blast
  from a b c show ?thesis by blast
qed

text \<open>
  C3 as stated fails: on the example registry the subscriptions at positions 1 and 2 are
  selected, and position 2 is counted and called before position 1. (The group's key
  \<^verbatim>\<open>q\<close> entered \<^verbatim>\<open>onePerQueue\<close> with position 0, ahead of the uuid key of position 1, and
  its value was then replaced by position 2.)
\<close>

theorem publish_registry_order_counterexample:
  "visited (snd (snd (publish ascii_node ''a.b'' (JStr ''hello'') JUndefined
                        (grouped_registry default_client)))) = [2, 1]
   \<and> \<not> sorted (visited (snd (snd (publish ascii_node ''a.b'' (JStr ''hello'') JUndefined
                        (grouped_registry default_client)))))"
  by code_simp

text \<open>
  The theorem at the example registry (the order is 2, 1) and at a registry without
  queue groups (the order is the registry's).
\<close>

theorem publish_visits_selection_in_order_witness:
  "decode_payload ascii_node (grouped_registry default_client) (JStr ''hello'') = Inr (JStr ''hello'')
   \<and> fst (publish ascii_node ''a.b'' (JStr ''hello'') JUndefined (grouped_registry default_client)) = None
   \<and> fst (findSubscribesBySubject ascii_node ''a.b'' (grouped_registry default_client)) = [2, 1]
   \<and> snd (snd (publish ascii_node ''a.b'' (JStr ''hello'') JUndefined (grouped_registry default_client)))
       = visit_events ascii_node (grouped_registry default_client) (JStr ''hello'') JUndefined ''a.b'' 2
         @ visit_events ascii_node (grouped_registry default_client) (JStr ''hello'') JUndefined ''a.b'' 1
   \<and> decode_payload ascii_node plain_registry (JStr ''hello'') = Inr (JStr ''hello'')
   \<and> fst (publish ascii_node ''a.b'' (JStr ''hello'') JUndefined plain_registry) = None
   \<and> list_all (\<lambda>i. ungrouped (subs plain_registry ! i)) (matches ''a.b'' plain_registry)
   \<and> fresh_uuids ascii_node (uuid_calls plain_registry) (length (matches ''a.b'' plain_registry))
   \<and> fst (findSubscribesBySubject ascii_node ''a.b'' plain_registry) = matches ''a.b'' plain_registry
   \<and> matches ''a.b'' plain_registry = [0, 1]"
proof -
  have a: "decode_payload ascii_node (grouped_registry default_client) (JStr ''hello'') = Inr (JStr ''hello'')"
    by code_simp
  have b: "fst (publish ascii_node ''a.b'' (JStr ''hello'') JUndefined (grouped_registry default_client)) = None"
    by code_simp
  have c: "fst (findSubscribesBySubject ascii_node ''a.b'' (grouped_registry default_client)) = [2, 1]"
    by code_simp
  have d: "decode_payload ascii_node plain_registry (JStr ''hello'') = Inr (JStr ''hello'')"
    by code_simp
  have e: "fst (publish ascii_node ''a.b'' (JStr ''hello'') JUndefined plain_registry) = None"
    by code_simp
  have f: "list_all (\<lambda>i. ungrouped (subs plain_registry ! i)) (matches ''a.b'' plain_registry)"
    by code_simp
  have g: "fresh_uuids ascii_node (uuid_calls plain_registry) (length (matches ''a.b'' plain_registry))"
    by code_simp
  have h: "matches ''a.b'' plain_registry = [0, 1]"
    by code_simp
  from publish_visits_selection_in_order [OF a b] c
  have i: "snd (snd (publish ascii_node ''a.b'' (JStr ''hello'') JUndefined (grouped_registry default_client)))
       = visit_events ascii_node (grouped_registry default_client) (JStr ''hello'') JUndefined ''a.b'' 2
         @ visit_events ascii_node (grouped_registry default_client) (JStr ''hello'') JUndefined ''a.b'' 1"
    by simp
  from publish_visits_selection_in_order [OF d e] f g
  have j: "fst (findSubscribesBySubject ascii_node ''a.b'' plain_registry) = matches ''a.b'' plain_registry"
    by blast
  from a b c d e f g h i j show ?thesis by blast
qed

subsection \<open>Timeouts\<close>

text \<open>
  The condition \<open>timers_wf\<close> holds in a fresh runtime and every operation keeps it, so it
  holds in every state a client can be in.
\<close>

lemma timers_wf_fresh: "timers_wf fresh_runtime"
  by (simp add: timers_wf_def fresh_runtime_def)

lemma timers_wf_setTimeout: "timers_wf st \<Longrightarrow> timers_wf (snd (setTimeout t d st))"
  by (auto simp: timers_wf_def setTimeout_def list_all_iff less_Suc_eq)

lemma timers_wf_clearTimeout: "timers_wf st \<Longrightarrow> timers_wf (clearTimeout h st)"
  by (auto simp: timers_wf_def clearTimeout_def list_all_iff)

lemma timers_wf_yield: "timers_wf st \<Longrightarrow> timers_wf (fst (yield d st))"
  by (auto simp: timers_wf_def yield_def Let_def list_all_iff)

lemma timers_wf_new_client: "timers_wf rt \<Longrightarrow> timers_wf (new_client opts rt)"
  by (simp add: timers_wf_def new_client_def)

lemma timers_wf_connect: "timers_wf st \<Longrightarrow> timers_wf (connect st)"
  unfolding connect_def by (rule timers_wf_setTimeout) (simp add: timers_wf_def)

lemma timers_wf_close: "timers_wf st \<Longrightarrow> timers_wf (close st)"
  by (simp add: timers_wf_def close_def nextTick_def)

lemma timers_wf_subscribe: "timers_wf st \<Longrightarrow> timers_wf (snd (subscribe P subj opts f st))"
  by (simp add: timers_wf_def subscribe_def draw_uuid_def split: opts_arg.splits)

lemma timers_wf_unsubscribe: "timers_wf st \<Longrightarrow> timers_wf (unsubscribe s st)"
  by (simp add: timers_wf_def unsubscribe_def split: option.splits)

lemma timers_wf_timeout_m: "timers_wf st \<Longrightarrow> timers_wf (timeout_m s d n f st)"
  by (auto simp: timers_wf_def timeout_m_def setTimeout_def Let_def list_all_iff less_Suc_eq
           split: option.splits)

lemma timers_wf_count_one: "timers_wf st \<Longrightarrow> timers_wf (fst (count_one i st))"
  by (auto simp: timers_wf_def count_one_def clearTimeout_def Let_def list_all_iff
           split: option.splits)

lemma timers_wf_deliver:
  "timers_wf st \<Longrightarrow> timers_wf (fst (snd (deliver P d r subj js st)))"
proof (induction js arbitrary: st)
  case Nil
  then show ?case by simp
next
  case (Cons j js)
  have "timers_wf (fst (count_one j st))" using Cons.prems by (rule timers_wf_count_one)
  then show ?case using Cons.IH [of "fst (count_one j st)"]
    by (simp add: split_beta split: option.splits)
qed

lemma timers_queue_key:
  "timers (snd (queue_key P s st)) = timers st \<and> next_timer (snd (queue_key P s st)) = next_timer st"
  by (simp add: queue_key_def draw_uuid_def split: option.splits)

lemma timers_fill:
  "timers (snd (onePerQueue_fill P js obj st)) = timers st
   \<and> next_timer (snd (onePerQueue_fill P js obj st)) = next_timer st"
proof (induction js arbitrary: obj st)
  case Nil
  show ?case by simp
next
  case (Cons j js)
  show ?case
    using Cons.IH [of "obj_set (fst (queue_key P (subs st ! j) st)) j obj" "snd (queue_key P (subs st ! j) st)"]
      timers_queue_key [of P "subs st ! j" st]
    by (simp add: split_beta)
qed

lemma timers_wf_publish: "timers_wf st \<Longrightarrow> timers_wf (fst (snd (publish P subj m r st)))"
proof -
  assume wf: "timers_wf st"
  have "timers_wf (snd (findSubscribesBySubject P subj st))"
    using wf timers_fill [of P "matches subj st" "[]" st]
    by (simp add: findSubscribesBySubject_def split_beta timers_wf_def)
  then show ?thesis
    using wf by (simp add: publish_def split_beta timers_wf_deliver split: sum.splits)
qed

lemma find_from_Some:
  "find_from n p xs = Some i \<Longrightarrow> n \<le> i \<and> i - n < length xs \<and> p (xs ! (i - n))"
proof (induction xs arbitrary: n)
  case Nil
  then show ?case by simp
next
  case (Cons x xs)
  show ?case
  proof (cases "p x")
    case True
    with Cons.prems show ?thesis by simp
  next
    case False
    with Cons.prems have "find_from (Suc n) p xs = Some i" by simp
    from Cons.IH [OF this] show ?thesis by (auto simp: Suc_diff_le)
  qed
qed

lemma findSubscribeBySid_Some:
  "findSubscribeBySid s st = Some i \<Longrightarrow> i < length (subs st) \<and> sid (subs st ! i) = s"
  using find_from_Some [of 0 "\<lambda>x. sid x = s" "subs st" i]
  by (simp add: findSubscribeBySid_def)

lemma timeout_m_found:
  assumes "findSubscribeBySid s st = Some i" and "f \<noteq> JUndefined"
  shows "timeout_m s dur e f st
           = st\<lparr>timers := timers st @ [(next_timer st, clock st + timer_delay dur, Cb_task f s)],
                next_timer := Suc (next_timer st),
                subs := (subs st)[i := (subs st ! i)\<lparr>expected := Some e, timeout := Some (next_timer st)\<rparr>]\<rparr>"
  using assms by (simp add: timeout_m_def setTimeout_def)

lemma filter_wf:
  "list_all (\<lambda>t. fst t < (h::nat)) ts \<Longrightarrow> filter (\<lambda>t. fst t \<noteq> h) (ts @ [(h, x)]) = ts"
  by (induction ts) auto

lemma yield_fires:
  assumes "(h, due, Cb_task f s) \<in> set (timers st)" and "due \<le> clock st + d" and "is_function f"
  shows "Call f [JStr s] \<in> set (snd (yield d st))"
proof -
  let ?due = "sort_key (\<lambda>e. fst (snd e)) (filter (is_due (clock st + d)) (timers st))"
  have "(h, due, Cb_task f s) \<in> set ?due"
    using assms(1,2) by (simp add: is_due_def)
  then have "Call f [JStr s] \<in> set (concat (map (\<lambda>e. run_task (snd (snd e))) ?due))"
    using assms(3) by (force simp del: set_sort)
  then show ?thesis by (simp add: yield_def Let_def)
qed

lemma yield_events_cong:
  "timers st' = timers st \<Longrightarrow> ticks st' = ticks st \<Longrightarrow> clock st' = clock st
     \<Longrightarrow> snd (yield d st') = snd (yield d st)"
  by (simp add: yield_def Let_def)

lemma count_many_Suc: "count_many i (Suc n) st = fst (count_one i (count_many i n st))"
  by (simp add: count_many_def)

lemma count_many_0: "count_many i 0 st = st"
  by (simp add: count_many_def)

lemma count_one_pending:
  assumes "i < length (subs st)" and "timeout (subs st ! i) = Some h" and "expected (subs st ! i) = Some e"
  shows "length (subs (fst (count_one i st))) = length (subs st)
         \<and> ticks (fst (count_one i st)) = ticks st \<and> clock (fst (count_one i st)) = clock st
         \<and> received (subs (fst (count_one i st)) ! i) = Suc (received (subs st ! i))
         \<and> expected (subs (fst (count_one i st)) ! i) = Some e
         \<and> (if e \<le> int (Suc (received (subs st ! i)))
             then timers (fst (count_one i st)) = filter (\<lambda>t. fst t \<noteq> h) (timers st)
                  \<and> timeout (subs (fst (count_one i st)) ! i) = None
             else timers (fst (count_one i st)) = timers st
                  \<and> timeout (subs (fst (count_one i st)) ! i) = Some h)"
  using assms by (simp add: count_one_def clearTimeout_def reached_def Let_def)

lemma count_one_idle:
  assumes "i < length (subs st)" and "timeout (subs st ! i) = None"
  shows "length (subs (fst (count_one i st))) = length (subs st)
         \<and> ticks (fst (count_one i st)) = ticks st \<and> clock (fst (count_one i st)) = clock st
         \<and> received (subs (fst (count_one i st)) ! i) = Suc (received (subs st ! i))
         \<and> expected (subs (fst (count_one i st)) ! i) = expected (subs st ! i)
         \<and> timers (fst (count_one i st)) = timers st
         \<and> timeout (subs (fst (count_one i st)) ! i) = None"
  using assms by (simp add: count_one_def Let_def)

lemma count_many_after_timeout:
  assumes found: "findSubscribeBySid s st = Some i"
    and wf: "timers_wf st"
    and fu: "f \<noteq> JUndefined"
  shows "length (subs (count_many i n (timeout_m s dur e f st))) = length (subs st)
         \<and> ticks (count_many i n (timeout_m s dur e f st)) = ticks st
         \<and> clock (count_many i n (timeout_m s dur e f st)) = clock st
         \<and> received (subs (count_many i n (timeout_m s dur e f st)) ! i) = received (subs st ! i) + n
         \<and> expected (subs (count_many i n (timeout_m s dur e f st)) ! i) = Some e
         \<and> (if 0 < n \<and> e \<le> int (received (subs st ! i) + n)
             then timers (count_many i n (timeout_m s dur e f st)) = timers st
                  \<and> timeout (subs (count_many i n (timeout_m s dur e f st)) ! i) = None
             else timers (count_many i n (timeout_m s dur e f st)) = timers (timeout_m s dur e f st)
                  \<and> timeout (subs (count_many i n (timeout_m s dur e f st)) ! i) = Some (next_timer st))"
proof (induction n)
  case 0
  have il: "i < length (subs st)" using findSubscribeBySid_Some [OF found] by simp
  show ?case using il by (simp add: count_many_0 timeout_m_found [OF found fu])
next
  case (Suc n)
  let ?t = "timeout_m s dur e f st"
  let ?sn = "count_many i n ?t"
  let ?h = "next_timer st"
  have il: "i < length (subs ?sn)" using findSubscribeBySid_Some [OF found] Suc.IH by simp
  have ex: "expected (subs ?sn ! i) = Some e" using Suc.IH by simp
  have w: "list_all (\<lambda>t. fst t < ?h) (timers st)" using wf by (simp add: timers_wf_def)
  have tt: "timers ?t = timers st @ [(?h, clock st + timer_delay dur, Cb_task f s)]"
    by (simp add: timeout_m_found [OF found fu])
  have flt: "filter (\<lambda>t. fst t \<noteq> ?h) (timers ?t) = timers st"
    unfolding tt by (rule filter_wf [OF w])
  show ?case
  proof (cases "0 < n \<and> e \<le> int (received (subs st ! i) + n)")
    case True
    with Suc.IH have idle: "timeout (subs ?sn ! i) = None" and tm: "timers ?sn = timers st"
      by simp_all
    from count_one_idle [OF il idle] Suc.IH True tm show ?thesis
      by (simp add: count_many_Suc)
  next
    case False
    with Suc.IH have pend: "timeout (subs ?sn ! i) = Some ?h" and tm: "timers ?sn = timers ?t"
      by (simp_all split: if_splits)
    from count_one_pending [OF il pend ex] Suc.IH tm flt show ?thesis
      by (simp add: count_many_Suc)
  qed
qed

text \<open>
  A publish that selects the one subscription at position \<open>i\<close> leaves the registry, the
  timers, the tick queue and the clock as one delivery to \<open>i\<close> does.
\<close>

lemma count_one_fields:
  assumes "subs st' = subs st" and "timers st' = timers st" and "ticks st' = ticks st"
    and "clock st' = clock st"
  shows "subs (fst (count_one i st')) = subs (fst (count_one i st))
         \<and> timers (fst (count_one i st')) = timers (fst (count_one i st))
         \<and> ticks (fst (count_one i st')) = ticks st
         \<and> clock (fst (count_one i st')) = clock st"
  using assms by (simp add: count_one_def clearTimeout_def Let_def split: option.splits)

lemma fields_queue_key:
  "ticks (snd (queue_key P s st)) = ticks st \<and> clock (snd (queue_key P s st)) = clock st"
  by (simp add: queue_key_def draw_uuid_def split: option.splits)

lemma fields_fill:
  "ticks (snd (onePerQueue_fill P js obj st)) = ticks st
   \<and> clock (snd (onePerQueue_fill P js obj st)) = clock st"
proof (induction js arbitrary: obj st)
  case Nil
  show ?case by simp
next
  case (Cons j js)
  show ?case
    using Cons.IH [of "obj_set (fst (queue_key P (subs st ! j) st)) j obj" "snd (queue_key P (subs st ! j) st)"]
      fields_queue_key [of P "subs st ! j" st]
    by (simp add: split_beta)
qed

lemma publish_single:
  assumes dec: "decode_payload P st m = Inr d"
    and sel: "fst (findSubscribesBySubject P subj st) = [i]"
  shows "subs (fst (snd (publish P subj m r st))) = subs (fst (count_one i st))
         \<and> timers (fst (snd (publish P subj m r st))) = timers (fst (count_one i st))
         \<and> ticks (fst (snd (publish P subj m r st))) = ticks st
         \<and> clock (fst (snd (publish P subj m r st))) = clock st"
proof -
  let ?st1 = "snd (findSubscribesBySubject P subj st)"
  have a: "subs ?st1 = subs st" using findSubscribes_props [of P subj st] by simp
  have b: "timers ?st1 = timers st"
    using timers_fill [of P "matches subj st" "[]" st]
    by (simp add: findSubscribesBySubject_def split_beta)
  have c: "ticks ?st1 = ticks st" "clock ?st1 = clock st"
    using fields_fill [of P "matches subj st" "[]" st]
    by (simp_all add: findSubscribesBySubject_def split_beta)
  have "fst (snd (publish P subj m r st)) = fst (count_one i ?st1)"
    using sel by (simp add: publish_decoded [OF dec] split_beta split: option.splits)
  then show ?thesis using count_one_fields [OF a b c, of i] by simp
qed

text \<open>
  Deliveries in a row. \<^verbatim>\<open>timeout(sid, duration, expected, cb)\<close> on a registered sid,
  then \<open>n\<close> deliveries to the subscription: if there was none, or if the count is still
  below \<open>expected\<close>, the timer is pending and the callback is called with the sid once
  the caller has yielded for the duration; if there was one and the count has reached
  \<open>expected\<close>, the timer is cancelled and the handle cleared, and the event loop does
  exactly what it would have done had \<^verbatim>\<open>timeout\<close> not been called.
\<close>

lemma timeout_then_deliveries:
  assumes found: "findSubscribeBySid s st = Some i"
    and wf: "timers_wf st"
    and fn: "is_function f"
  shows "timers (timeout_m s dur e f st)
           = timers st @ [(next_timer st, clock st + timer_delay dur, Cb_task f s)]
         \<and> timeout (subs (timeout_m s dur e f st) ! i) = Some (next_timer st)
         \<and> expected (subs (timeout_m s dur e f st) ! i) = Some e
         \<and> received (subs (timeout_m s dur e f st) ! i) = received (subs st ! i)
         \<and> (n = 0 \<or> int (received (subs st ! i) + n) < e \<longrightarrow>
              timers (count_many i n (timeout_m s dur e f st)) = timers (timeout_m s dur e f st)
              \<and> (timer_delay dur \<le> d \<longrightarrow>
                    Call f [JStr s] \<in> set (snd (yield d (count_many i n (timeout_m s dur e f st))))))
         \<and> (0 < n \<and> e \<le> int (received (subs st ! i) + n) \<longrightarrow>
              timers (count_many i n (timeout_m s dur e f st)) = timers st
              \<and> timeout (subs (count_many i n (timeout_m s dur e f st)) ! i) = None
              \<and> snd (yield d (count_many i n (timeout_m s dur e f st))) = snd (yield d st))"
proof -
  let ?h = "next_timer st"
  let ?t = "timeout_m s dur e f st"
  let ?sn = "count_many i n ?t"
  let ?entry = "(?h, clock st + timer_delay dur, Cb_task f s)"
  have il: "i < length (subs st)" using findSubscribeBySid_Some [OF found] by simp
  have fu: "f \<noteq> JUndefined" using fn by auto
  note tm = timeout_m_found [OF found fu, of dur e]
  note cm = count_many_after_timeout [OF found wf fu, of n dur e]
  have t1: "timers ?t = timers st @ [?entry]" by (simp add: tm)
  have t2: "timeout (subs ?t ! i) = Some ?h \<and> expected (subs ?t ! i) = Some e
            \<and> received (subs ?t ! i) = received (subs st ! i)"
    using il by (simp add: tm)
  have below: "timers ?sn = timers ?t
        \<and> (timer_delay dur \<le> d \<longrightarrow> Call f [JStr s] \<in> set (snd (yield d ?sn)))"
    if b: "n = 0 \<or> int (received (subs st ! i) + n) < e"
  proof -
    from b have "\<not> (0 < n \<and> e \<le> int (received (subs st ! i) + n))" by auto
    with cm have c1: "timers ?sn = timers ?t" and c3: "clock ?sn = clock st" by simp_all
    have m2: "?entry \<in> set (timers ?sn)" using c1 t1 by simp
    have "Call f [JStr s] \<in> set (snd (yield d ?sn))" if "timer_delay dur \<le> d"
      using yield_fires [OF m2 _ fn, of d] that c3 by simp
    with c1 show ?thesis by blast
  qed
  have cancel: "timers ?sn = timers st \<and> timeout (subs ?sn ! i) = None
        \<and> snd (yield d ?sn) = snd (yield d st)"
    if b: "0 < n \<and> e \<le> int (received (subs st ! i) + n)"
  proof -
    from b cm have c1: "timers ?sn = timers st" and c2: "timeout (subs ?sn ! i) = None"
      and c3: "ticks ?sn = ticks st" "clock ?sn = clock st"
      by simp_all
    have "snd (yield d ?sn) = snd (yield d st)"
      using c1 c3 by (intro yield_events_cong) simp_all
    with c1 c2 show ?thesis by simp
  qed
  from t1 t2 below cancel show ?thesis by blast
qed






lemma count_one_forms:
  "count_one i st
     = (case timeout (subs st ! i) of
          Some h \<Rightarrow>
            if reached (Suc (received (subs st ! i))) (expected (subs st ! i))
            then (st\<lparr>timers := filter (\<lambda>t. fst t \<noteq> h) (timers st),
                     subs := (subs st)[i := (subs st ! i)\<lparr>received := Suc (received (subs st ! i)),
                                                        timeout := None\<rparr>]\<rparr>,
                  [Received i (Suc (received (subs st ! i))), ClearTimeout h])
            else (st\<lparr>subs := (subs st)[i := (subs st ! i)\<lparr>received := Suc (received (subs st ! i))\<rparr>]\<rparr>,
                  [Received i (Suc (received (subs st ! i)))])
        | None \<Rightarrow>
            (st\<lparr>subs := (subs st)[i := (subs st ! i)\<lparr>received := Suc (received (subs st ! i))\<rparr>]\<rparr>,
             [Received i (Suc (received (subs st ! i)))]))"
  by (simp add: count_one_def clearTimeout_def Let_def split: option.splits)

lemma findSubscribes_fields:
  "subs (snd (findSubscribesBySubject P subj st)) = subs st
   \<and> timers (snd (findSubscribesBySubject P subj st)) = timers st
   \<and> next_timer (snd (findSubscribesBySubject P subj st)) = next_timer st
   \<and> clock (snd (findSubscribesBySubject P subj st)) = clock st"
  using findSubscribes_props [of P subj st] timers_fill [of P "matches subj st" "[]" st]
    fields_fill [of P "matches subj st" "[]" st]
  by (simp add: findSubscribesBySubject_def split_beta)

lemma handles_wf_step:
  assumes "handles_wf st" and "timers_wf st'" and "next_timer st \<le> next_timer st'"
    and "\<forall>x \<in> set (subs st'). x \<in> set (subs st) \<or> timeout x = None
           \<or> (\<exists>h. timeout x = Some h \<and> h < next_timer st')"
  shows "handles_wf st'"
  using assms by (fastforce simp: handles_wf_def list_all_iff split: option.splits)

lemma handles_wf_fresh: "handles_wf fresh_runtime"
  by (simp add: handles_wf_def timers_wf_fresh) (simp add: fresh_runtime_def)

lemma handles_wf_new_client: "handles_wf rt \<Longrightarrow> handles_wf (new_client opts rt)"
  by (simp add: handles_wf_def timers_wf_new_client) (simp add: new_client_def)

lemma handles_wf_count_one:
  assumes "handles_wf st"
  shows "handles_wf (fst (count_one i st))"
proof (rule handles_wf_step [OF assms])
  show "timers_wf (fst (count_one i st))"
    using assms by (simp add: handles_wf_def timers_wf_count_one)
  show "next_timer st \<le> next_timer (fst (count_one i st))"
    by (simp add: count_one_forms split: option.splits)
  show "\<forall>x \<in> set (subs (fst (count_one i st))). x \<in> set (subs st) \<or> timeout x = None
           \<or> (\<exists>h. timeout x = Some h \<and> h < next_timer (fst (count_one i st)))"
  proof
    fix x assume x: "x \<in> set (subs (fst (count_one i st)))"
    show "x \<in> set (subs st) \<or> timeout x = None
           \<or> (\<exists>h. timeout x = Some h \<and> h < next_timer (fst (count_one i st)))"
    proof (cases "i < length (subs st)")
      case False
      then have "length (subs st) \<le> i" by simp
      with x show ?thesis
        by (auto simp: count_one_forms list_update_beyond split: option.splits if_splits)
    next
      case True
      then have m: "subs st ! i \<in> set (subs st)" by simp
      then have b: "case timeout (subs st ! i) of None \<Rightarrow> True | Some h \<Rightarrow> h < next_timer st"
        using assms by (simp add: handles_wf_def list_all_iff)
      from x b show ?thesis
        by (auto simp: count_one_forms split: option.splits if_splits
              dest!: subsetD [OF set_update_subset_insert])
    qed
  qed
qed

lemma next_timer_count_one: "next_timer (fst (count_one i st)) = next_timer st"
  by (simp add: count_one_forms split: option.splits)

lemma handles_wf_deliver:
  "handles_wf st \<Longrightarrow> handles_wf (fst (snd (deliver P d r subj js st)))"
proof (induction js arbitrary: st)
  case Nil
  then show ?case by simp
next
  case (Cons j js)
  have "handles_wf (fst (count_one j st))" using Cons.prems by (rule handles_wf_count_one)
  then show ?case using Cons.IH [of "fst (count_one j st)"]
    by (simp add: split_beta split: option.splits)
qed

lemma handles_wf_same:
  "handles_wf st \<Longrightarrow> subs st' = subs st \<Longrightarrow> timers st' = timers st
     \<Longrightarrow> next_timer st' = next_timer st \<Longrightarrow> handles_wf st'"
  by (simp add: handles_wf_def timers_wf_def cong: option.case_cong)

lemma handles_wf_publish: "handles_wf st \<Longrightarrow> handles_wf (fst (snd (publish P subj m r st)))"
proof -
  assume wf: "handles_wf st"
  have "handles_wf (snd (findSubscribesBySubject P subj st))"
    using wf findSubscribes_fields [of P subj st] by (intro handles_wf_same [OF wf]) simp_all
  then show ?thesis
    using wf by (simp add: publish_def split_beta handles_wf_deliver split: sum.splits)
qed

lemma handles_wf_requestOne:
  "handles_wf st \<Longrightarrow> handles_wf (fst (snd (requestOne P subj m opts f st)))"
proof -
  assume wf: "handles_wf st"
  have a: "handles_wf (st\<lparr>uuid_calls := Suc (uuid_calls st)\<rparr>)"
    by (intro handles_wf_same [OF wf]) simp_all
  show ?thesis
    using a handles_wf_publish [OF a]
    by (simp add: requestOne_def draw_uuid_def split_beta split: option.splits)
qed

lemma handles_wf_subscribe: "handles_wf st \<Longrightarrow> handles_wf (snd (subscribe P subj opts f st))"
  by (simp add: handles_wf_def timers_wf_def subscribe_def draw_uuid_def
        split: opts_arg.splits cong: option.case_cong)

lemma handles_wf_unsubscribe: "handles_wf st \<Longrightarrow> handles_wf (unsubscribe s st)"
proof (cases "findSubscribeBySid s st")
  case None
  assume "handles_wf st"
  with None show ?thesis by (simp add: unsubscribe_def)
next
  case (Some i)
  assume wf: "handles_wf st"
  have sub: "set (take i (subs st) @ drop (Suc i) (subs st)) \<subseteq> set (subs st)"
    using set_take_subset [of i "subs st"] set_drop_subset [of "Suc i" "subs st"] by auto
  show ?thesis
    using wf sub Some
    by (auto simp: handles_wf_def timers_wf_def unsubscribe_def list_all_iff
          cong: option.case_cong)
qed

lemma handles_wf_timeout_m: "handles_wf st \<Longrightarrow> handles_wf (timeout_m s d n f st)"
proof (cases "findSubscribeBySid s st")
  case None
  assume "handles_wf st"
  with None show ?thesis by (simp add: timeout_m_def)
next
  case (Some i)
  assume wf: "handles_wf st"
  show ?thesis
  proof (rule handles_wf_step [OF wf])
    show "timers_wf (timeout_m s d n f st)"
      using wf by (simp add: handles_wf_def timers_wf_timeout_m)
    show "next_timer st \<le> next_timer (timeout_m s d n f st)"
      using Some by (simp add: timeout_m_def setTimeout_def Let_def)
    show "\<forall>x \<in> set (subs (timeout_m s d n f st)). x \<in> set (subs st) \<or> timeout x = None
           \<or> (\<exists>h. timeout x = Some h \<and> h < next_timer (timeout_m s d n f st))"
      using Some
      by (auto simp: timeout_m_def setTimeout_def Let_def
            dest!: subsetD [OF set_update_subset_insert])
  qed
qed

lemma handles_wf_connect: "handles_wf st \<Longrightarrow> handles_wf (connect st)"
  by (auto simp: handles_wf_def timers_wf_def connect_def setTimeout_def list_all_iff less_Suc_eq
        split: option.splits)

lemma handles_wf_close: "handles_wf st \<Longrightarrow> handles_wf (close st)"
  by (simp add: handles_wf_def timers_wf_def close_def nextTick_def)

lemma handles_wf_yield: "handles_wf st \<Longrightarrow> handles_wf (fst (yield d st))"
  by (auto simp: handles_wf_def timers_wf_def yield_def Let_def list_all_iff
        cong: option.case_cong)

lemma handles_wf_do_call: "handles_wf st \<Longrightarrow> handles_wf (fst (do_call P c st))"
  by (cases c)
     (simp_all add: handles_wf_connect handles_wf_close handles_wf_subscribe handles_wf_publish
        handles_wf_requestOne handles_wf_unsubscribe handles_wf_timeout_m handles_wf_yield)

lemma handles_wf_run: "handles_wf st \<Longrightarrow> handles_wf (fst (run P cs st))"
proof (induction cs arbitrary: st)
  case Nil
  then show ?case by simp
next
  case (Cons c cs)
  have "handles_wf (fst (do_call P c st))" using Cons.prems by (rule handles_wf_do_call)
  then show ?case using Cons.IH [of "fst (do_call P c st)"] by (simp add: split_beta)
qed



















































subsection \<open>Queue groups\<close>

lemma queue_key_grouped:
  "queue s = Some q \<Longrightarrow> q \<noteq> [] \<Longrightarrow> queue_key P s st = (q, st)"
  by (simp add: queue_key_def)

lemma obj_set_same_key:
  "q \<noteq> ''__proto__'' \<Longrightarrow> obj_set q j [(q, v)] = [(q, j)]"
  by (simp add: obj_set_def)

lemma fill_one_group:
  "\<forall>j \<in> set js. queue (subs st ! j) = Some q \<Longrightarrow> q \<noteq> [] \<Longrightarrow> q \<noteq> ''__proto__''
     \<Longrightarrow> onePerQueue_fill P js [(q, v)] st = ([(q, last (v # js))], st)"
proof (induction js arbitrary: v)
  case Nil
  show ?case by simp
next
  case (Cons j js)
  have k: "queue_key P (subs st ! j) st = (q, st)"
    using Cons.prems by (simp add: queue_key_grouped)
  have "onePerQueue_fill P (j # js) [(q, v)] st = onePerQueue_fill P js [(q, j)] st"
    using k Cons.prems(3) by (simp add: obj_set_same_key)
  also have "\<dots> = ([(q, last (j # js))], st)"
    using Cons.IH [of j] Cons.prems by simp
  finally show ?case by simp
qed

lemma obj_values_single: "obj_values [(k, v)] = [v]"
  by (simp add: obj_values_def)

text \<open>
  When all the matching subscriptions share one queue group, with a name other than
  \<^verbatim>\<open>__proto__\<close>, exactly one of them is selected: the last one in the registry. (When none
  has a queue group, all are selected: \<open>findSubscribes_ungrouped\<close>.)
\<close>

lemma findSubscribes_one_group:
  assumes g: "list_all (\<lambda>i. queue (subs st ! i) = Some q) (matches subj st)"
    and q: "q \<noteq> []" "q \<noteq> ''__proto__''"
    and ne: "matches subj st \<noteq> []"
  shows "findSubscribesBySubject P subj st = ([last (matches subj st)], st)"
proof -
  obtain j js where m: "matches subj st = j # js" using ne by (cases "matches subj st") auto
  have a: "\<forall>i \<in> set (j # js). queue (subs st ! i) = Some q"
    using g m by (simp add: list_all_iff)
  then have k: "queue_key P (subs st ! j) st = (q, st)"
    using q by (simp add: queue_key_grouped)
  have o: "obj_set q j ([] :: (string \<times> nat) list) = [(q, j)]"
    using q by (simp add: obj_set_def)
  have "onePerQueue_fill P (j # js) [] st = onePerQueue_fill P js [(q, j)] st"
    using k o by simp
  also have "\<dots> = ([(q, last (j # js))], st)"
    using fill_one_group [of js st q P j] a q by simp
  finally show ?thesis
    using m by (simp add: findSubscribesBySubject_def obj_values_single)
qed

lemma last_of_group_snoc:
  assumes "\<forall>w \<in> set seen. w < j" and "v \<in> set seen"
  shows "last_of_group st (seen @ [j]) v
           = (ungrouped (subs st ! v)
              \<or> (last_of_group st seen v \<and> queue (subs st ! j) \<noteq> queue (subs st ! v)))"
  using assms by (auto simp: last_of_group_def list_all_iff)

lemma last_of_group_new:
  assumes "\<forall>w \<in> set seen. w < j"
  shows "last_of_group st (seen @ [j]) j"
  using assms by (auto simp: last_of_group_def list_all_iff)

lemma ungrouped_queue: "ungrouped s \<Longrightarrow> queue s = Some q \<Longrightarrow> q = []"
  by (simp add: ungrouped_def)

lemma grouped_not_ungrouped: "queue s = Some q \<Longrightarrow> q \<noteq> [] \<Longrightarrow> \<not> ungrouped s"
  by (simp add: ungrouped_def)

lemma replace_set:
  "set (map (\<lambda>p. if fst p = k then (k, v) else p) obj)
     = {p \<in> set obj. fst p \<noteq> k} \<union> (if k \<in> fst ` set obj then {(k, v)} else {})"
  by (induction obj) auto

lemma step_grouped:
  assumes inv: "fill_inv P st c0 obj seen c"
    and q: "queue (subs st ! j) = Some q" "q \<noteq> []" "q \<noteq> ''__proto__''"
    and lt: "\<forall>w \<in> set seen. w < j"
    and apart: "\<forall>n \<in> {c0 ..< c}. uuid_v4 P n \<noteq> q"
  shows "fill_inv P st c0 (obj_set q j obj) (seen @ [j]) c"
proof -
  let ?new = "obj_set q j obj"
  have dk: "distinct (map fst obj)"
    and ok: "\<forall>p \<in> set obj. snd p \<in> set seen \<and> key_ok P st c0 c p"
    and sel: "\<forall>v \<in> set seen. (v \<in> snd ` set obj) = last_of_group st seen v"
    using inv by (simp_all add: fill_inv_def)
  have gj: "\<not> ungrouped (subs st ! j)" using q by (simp add: grouped_not_ungrouped)
  have jn: "j \<notin> set seen" using lt by auto
  have set_new: "set ?new = {p \<in> set obj. fst p \<noteq> q} \<union> {(q, j)}"
    using q(3) by (auto simp: obj_set_def replace_set)
  have a: "distinct (map fst ?new)" using dk by (rule obj_set_distinct_keys)
  have b: "\<forall>p \<in> set ?new. snd p \<in> set (seen @ [j]) \<and> key_ok P st c0 c p"
    using ok q gj by (auto simp: set_new key_ok_def)
  have keyq: "fst p = q \<longleftrightarrow> queue (subs st ! snd p) = Some q" if "p \<in> set obj" for p
  proof (cases "ungrouped (subs st ! snd p)")
    case True
    with ok that have "fst p \<in> uuid_v4 P ` {c0 ..< c}" by (simp add: key_ok_def)
    with apart have "fst p \<noteq> q" by auto
    moreover from True q(2) have "queue (subs st ! snd p) \<noteq> Some q"
      using ungrouped_queue by blast
    ultimately show ?thesis by simp
  next
    case False
    with ok that have "queue (subs st ! snd p) = Some (fst p)" by (simp add: key_ok_def)
    then show ?thesis by auto
  qed
  have c: "(v \<in> snd ` set ?new) = last_of_group st (seen @ [j]) v" if v: "v \<in> set (seen @ [j])" for v
  proof (cases "v = j")
    case True
    then show ?thesis using last_of_group_new [OF lt, of st] by (auto simp: set_new)
  next
    case False
    with v have vd: "v \<in> set seen" by simp
    have "(v \<in> snd ` set ?new) = (\<exists>p \<in> set obj. snd p = v \<and> fst p \<noteq> q)"
      using False by (auto simp: set_new)
    also have "\<dots> = (v \<in> snd ` set obj \<and> queue (subs st ! v) \<noteq> Some q)"
      using keyq by (metis (no_types, lifting) image_iff)
    also have "\<dots> = (last_of_group st seen v \<and> queue (subs st ! v) \<noteq> Some q)"
      using sel vd by simp
    also have "\<dots> = last_of_group st (seen @ [j]) v"
      using last_of_group_snoc [OF lt vd, of st] q ungrouped_queue
      by (auto simp: last_of_group_def)
    finally show ?thesis .
  qed
  from a b c show ?thesis by (simp add: fill_inv_def)
qed

lemma step_ungrouped:
  assumes inv: "fill_inv P st c0 obj seen c"
    and u: "ungrouped (subs st ! j)"
    and lt: "\<forall>w \<in> set seen. w < j"
    and c: "c0 \<le> c"
    and new: "uuid_v4 P c \<noteq> ''__proto__''" "uuid_v4 P c \<notin> uuid_v4 P ` {c0 ..< c}"
    and apart: "\<forall>v \<in> set seen. queue (subs st ! v) \<noteq> Some (uuid_v4 P c)"
  shows "fill_inv P st c0 (obj_set (uuid_v4 P c) j obj) (seen @ [j]) (Suc c)"
proof -
  let ?k = "uuid_v4 P c"
  have dk: "distinct (map fst obj)"
    and ok: "\<forall>p \<in> set obj. snd p \<in> set seen \<and> key_ok P st c0 c p"
    and sel: "\<forall>v \<in> set seen. (v \<in> snd ` set obj) = last_of_group st seen v"
    using inv by (simp_all add: fill_inv_def)
  have nk: "?k \<notin> fst ` set obj"
  proof
    assume "?k \<in> fst ` set obj"
    then obtain p where p: "p \<in> set obj" "fst p = ?k" by auto
    show False
    proof (cases "ungrouped (subs st ! snd p)")
      case True
      with ok p have "?k \<in> uuid_v4 P ` {c0 ..< c}" by (auto simp: key_ok_def)
      with new(2) show False by simp
    next
      case False
      with ok p have "queue (subs st ! snd p) = Some ?k" "snd p \<in> set seen"
        by (auto simp: key_ok_def)
      with apart show False by blast
    qed
  qed
  have o: "obj_set ?k j obj = obj @ [(?k, j)]" using new(1) nk by (simp add: obj_set_fresh)
  have jn: "j \<notin> set seen" using lt by auto
  have a: "distinct (map fst (obj @ [(?k, j)]))" using dk nk by simp
  have mono: "key_ok P st c0 (Suc c) p" if "key_ok P st c0 c p" for p
    using that by (auto simp: key_ok_def split: if_splits)
  have kj: "key_ok P st c0 (Suc c) (?k, j)" using u c by (simp add: key_ok_def)
  have b: "\<forall>p \<in> set (obj @ [(?k, j)]). snd p \<in> set (seen @ [j]) \<and> key_ok P st c0 (Suc c) p"
    using ok mono kj by auto
  have d: "(v \<in> snd ` set (obj @ [(?k, j)])) = last_of_group st (seen @ [j]) v"
    if v: "v \<in> set (seen @ [j])" for v
  proof (cases "v = j")
    case True
    then show ?thesis using last_of_group_new [OF lt, of st] by auto
  next
    case False
    with v have vd: "v \<in> set seen" by simp
    have "(v \<in> snd ` set (obj @ [(?k, j)])) = (v \<in> snd ` set obj)" using False by auto
    also have "\<dots> = last_of_group st seen v" using sel vd by simp
    also have "\<dots> = last_of_group st (seen @ [j]) v"
      using last_of_group_snoc [OF lt vd, of st] u
      by (auto simp: last_of_group_def ungrouped_def split: option.splits)
    finally show ?thesis .
  qed
  from a b d show ?thesis unfolding o by (simp add: fill_inv_def)
qed


lemma not_ungrouped: "\<not> ungrouped s \<Longrightarrow> \<exists>q. queue s = Some q \<and> q \<noteq> []"
  by (auto simp: ungrouped_def split: option.splits)

lemma fill_keeps_inv:
  assumes "fill_inv P st c0 obj seen (uuid_calls st')"
    and "subs st' = subs st"
    and "sorted_wrt (<) (seen @ js)"
    and "c0 \<le> uuid_calls st'" and "uuid_calls st' + length js \<le> c0 + N"
    and F1: "inj_on (uuid_v4 P) {c0 ..< c0 + N}"
    and F2: "\<forall>n \<in> {c0 ..< c0 + N}. uuid_v4 P n \<noteq> ''__proto__''"
    and F3: "\<forall>i \<in> set (seen @ js). \<forall>n \<in> {c0 ..< c0 + N}. queue (subs st ! i) \<noteq> Some (uuid_v4 P n)"
    and F4: "\<forall>i \<in> set js. queue (subs st ! i) \<noteq> Some ''__proto__''"
  shows "fill_inv P st c0 (fst (onePerQueue_fill P js obj st')) (seen @ js)
           (uuid_calls (snd (onePerQueue_fill P js obj st')))"
  using assms(1-5) F3 F4
proof (induction js arbitrary: obj seen st')
  case Nil
  then show ?case by simp
next
  case (Cons j js)
  let ?c = "uuid_calls st'"
  have lt: "\<forall>w \<in> set seen. w < j"
    using Cons.prems(3) by (simp add: sorted_wrt_append)
  have srt: "sorted_wrt (<) ((seen @ [j]) @ js)" using Cons.prems(3) by simp
  have f3: "\<forall>i \<in> set ((seen @ [j]) @ js). \<forall>n \<in> {c0 ..< c0 + N}.
              queue (subs st ! i) \<noteq> Some (uuid_v4 P n)"
    using Cons.prems(6) by simp
  have f4: "\<forall>i \<in> set js. queue (subs st ! i) \<noteq> Some ''__proto__''"
    using Cons.prems(7) by simp
  have sj: "subs st' ! j = subs st ! j" using Cons.prems(2) by simp
  show ?case
  proof (cases "ungrouped (subs st ! j)")
    case True
    let ?st1 = "st'\<lparr>uuid_calls := Suc ?c\<rparr>"
    have k: "queue_key P (subs st' ! j) st' = (uuid_v4 P ?c, ?st1)"
      using True sj by (simp add: queue_key_ungrouped)
    have rng: "?c \<in> {c0 ..< c0 + N}" using Cons.prems(4,5) by simp
    have n1: "uuid_v4 P ?c \<noteq> ''__proto__''" using F2 rng by blast
    have n2: "uuid_v4 P ?c \<notin> uuid_v4 P ` {c0 ..< ?c}"
    proof
      assume "uuid_v4 P ?c \<in> uuid_v4 P ` {c0 ..< ?c}"
      then obtain n where n: "n \<in> {c0 ..< ?c}" "uuid_v4 P n = uuid_v4 P ?c" by auto
      then have "n \<in> {c0 ..< c0 + N}" using rng by simp
      with F1 rng n(2) have "n = ?c" by (auto dest: inj_onD)
      with n(1) show False by simp
    qed
    have n3: "\<forall>v \<in> set seen. queue (subs st ! v) \<noteq> Some (uuid_v4 P ?c)"
      using Cons.prems(6) rng by simp
    have inv1: "fill_inv P st c0 (obj_set (uuid_v4 P ?c) j obj) (seen @ [j]) (uuid_calls ?st1)"
      using step_ungrouped [OF Cons.prems(1) True lt Cons.prems(4) n1 n2 n3] by simp
    have s1: "subs ?st1 = subs st" using Cons.prems(2) by simp
    have c1: "c0 \<le> uuid_calls ?st1" using Cons.prems(4) by simp
    have c2: "uuid_calls ?st1 + length js \<le> c0 + N" using Cons.prems(5) by simp
    from Cons.IH [OF inv1 s1 srt c1 c2 f3 f4] k show ?thesis by simp
  next
    case False
    then obtain q where q: "queue (subs st ! j) = Some q" "q \<noteq> []"
      using not_ungrouped by blast
    have k: "queue_key P (subs st' ! j) st' = (q, st')"
      using q sj by (simp add: queue_key_grouped)
    have qp: "q \<noteq> ''__proto__''" using Cons.prems(7) q by auto
    have ap: "\<forall>n \<in> {c0 ..< ?c}. uuid_v4 P n \<noteq> q"
    proof
      fix n assume "n \<in> {c0 ..< ?c}"
      then have "n \<in> {c0 ..< c0 + N}" using Cons.prems(5) by simp
      with Cons.prems(6) q show "uuid_v4 P n \<noteq> q" by auto
    qed
    have inv1: "fill_inv P st c0 (obj_set q j obj) (seen @ [j]) (uuid_calls st')"
      by (rule step_grouped [OF Cons.prems(1) q qp lt ap])
    have c2: "uuid_calls st' + length js \<le> c0 + N" using Cons.prems(5) by simp
    from Cons.IH [OF inv1 Cons.prems(2) srt Cons.prems(4) c2 f3 f4] k show ?thesis by simp
  qed
qed

lemma matches_sorted: "sorted_wrt (<) (matches subj st)"
  by (simp add: matches_def sorted_wrt_filter)

text \<open>
  The selection in general. As long as no matching subscription is in a queue group named
  \<^verbatim>\<open>__proto__\<close> (and the uuids are new), the selected subscriptions are the matching ones
  that have no queue group or are the last matching member of their group: with
  \<open>findSubscribes_props\<close> (no subscription is selected twice) that is one subscription for
  each queue group and every subscription without one.
\<close>

lemma findSubscribes_selection:
  assumes ap: "uuids_apart P st (matches subj st)"
  shows "set (fst (findSubscribesBySubject P subj st))
           = {i \<in> set (matches subj st). last_of_group st (matches subj st) i}"
proof -
  let ?ms = "matches subj st"
  let ?c0 = "uuid_calls st"
  let ?N = "length ?ms"
  let ?obj = "fst (onePerQueue_fill P ?ms [] st)"
  have fr: "distinct (map (uuid_v4 P) [?c0 ..< ?c0 + ?N])"
    and pk: "list_all plain_key (map (uuid_v4 P) [?c0 ..< ?c0 + ?N])"
    using ap by (simp_all add: uuids_apart_def fresh_uuids_def)
  have F1: "inj_on (uuid_v4 P) {?c0 ..< ?c0 + ?N}"
    using fr by (simp add: distinct_map)
  have F2: "\<forall>n \<in> {?c0 ..< ?c0 + ?N}. uuid_v4 P n \<noteq> ''__proto__''"
    using pk by (auto simp: list_all_iff plain_key_def)
  have F3: "\<forall>i \<in> set ([] @ ?ms). \<forall>n \<in> {?c0 ..< ?c0 + ?N}. queue (subs st ! i) \<noteq> Some (uuid_v4 P n)"
    using ap by (auto simp: uuids_apart_def list_all_iff)
  have F4: "\<forall>i \<in> set ?ms. queue (subs st ! i) \<noteq> Some ''__proto__''"
    using ap by (auto simp: uuids_apart_def list_all_iff)
  have i0: "fill_inv P st ?c0 [] [] (uuid_calls st)" by (simp add: fill_inv_def)
  have srt: "sorted_wrt (<) ([] @ ?ms)" by (simp add: matches_sorted)
  have "fill_inv P st ?c0 ?obj ([] @ ?ms) (uuid_calls (snd (onePerQueue_fill P ?ms [] st)))"
    by (rule fill_keeps_inv [OF i0 refl srt _ _ F1 F2 F3 F4]) simp_all
  then have sub: "\<forall>p \<in> set ?obj. snd p \<in> set ?ms"
    and sel: "\<forall>v \<in> set ?ms. (v \<in> snd ` set ?obj) = last_of_group st ?ms v"
    by (simp_all add: fill_inv_def)
  have "set (fst (findSubscribesBySubject P subj st)) = snd ` set ?obj"
    by (simp add: findSubscribesBySubject_def split_beta set_obj_values)
  also have "\<dots> = {i \<in> set ?ms. last_of_group st ?ms i}"
    using sub sel by auto
  finally show ?thesis .
qed

text \<open>
  C1. The claim has one subscription selected for every queue group among the matching
  subscriptions. For the group named \<^verbatim>\<open>__proto__\<close> the code selects none: both
  subscriptions of the example match the subject \<^verbatim>\<open>a\<close>, the assignment
  \<^verbatim>\<open>onePerQueue["__proto__"] = sub\<close> creates no property, \<^verbatim>\<open>Object.values\<close> is empty, and
  the publish changes nothing and calls no handler.
\<close>

theorem proto_queue_group_selects_none:
  "map queue (subs proto_registry) = [Some ''__proto__'', Some ''__proto__'']
   \<and> matches ''a'' proto_registry = [0, 1]
   \<and> fst (findSubscribesBySubject ascii_node ''a'' proto_registry) = []
   \<and> publish ascii_node ''a'' (JStr ''hello'') JUndefined proto_registry = (None, proto_registry, [])"
  by code_simp

end
